theory Spec2Isabelle
  imports Main
begin

section \<open>Data model of the dashboard page\<close>

text \<open>
  The page component of the shared task dashboard keeps its view state in React state
  cells and refs. JavaScript strings are modelled as \<open>string\<close>, with characters read as
  code units below 256; an object used as a dictionary is a map; the value
  \<open>undefined\<close> of an optional field is \<open>None\<close>.
\<close>

datatype owner = OWNER_A | OWNER_B

datatype status = Pending | In_Progress | Completed

definition owner_str :: "owner \<Rightarrow> string" where
  "owner_str ow =
     (case ow of OWNER_A \<Rightarrow> ''Co-Owner A (Ops/Compliance)''
               | OWNER_B \<Rightarrow> ''Co-Owner B (Sales/Finance)'')"

definition ALL_OWNERS :: "owner list" where
  "ALL_OWNERS = [OWNER_A, OWNER_B]"

record TaskRow =
  t_id :: string
  t_week_number :: int
  t_owner :: owner
  t_description :: string
  t_status :: status

text \<open>A fetched row of \<open>task_notes\<close>; the loader guards a null note with \<open>?? ""\<close>.\<close>

record TaskNoteRow =
  r_id :: string
  r_task_id :: string
  r_owner :: owner
  r_note :: "string option"
  r_updated_at :: string

text \<open>An entry of \<open>notesByTask[taskId][owner]\<close>.\<close>

record note_entry =
  e_note :: string
  e_updated_at :: "string option"
  e_id :: "string option"

type_synonym notes_cache = "string \<rightharpoonup> (owner \<rightharpoonup> note_entry)"
type_synonym draft_cache = "string \<rightharpoonup> (owner \<rightharpoonup> string)"

text \<open>
  The state cells and refs of the component that the note and task operations touch.
  \<open>taskIdSetRef\<close> is a JavaScript \<open>Set\<close>, kept as the list of its members in insertion
  order; \<open>autosaveTimersRef\<close> is enumerated by \<open>Object.keys\<close>, so it is an association
  list from key to timer id.
\<close>

record dashboard =
  tasks :: "TaskRow list"
  selectedWeek :: "int option"
  newOwner :: owner
  newDesc :: string
  errorMsg :: string
  notesByTask :: notes_cache
  draftByTask :: draft_cache
  savingKeys :: "string \<rightharpoonup> bool"
  taskIdSetRef :: "string list"
  autosaveTimersRef :: "(string \<times> nat) list"
  autosaveInFlightRef :: "string set"

text \<open>The state of the component when it mounts.\<close>

definition dashboard0 :: dashboard where
  "dashboard0 =
     \<lparr>tasks = [], selectedWeek = None, newOwner = OWNER_A, newDesc = '''', errorMsg = '''',
      notesByTask = Map.empty, draftByTask = Map.empty, savingKeys = Map.empty,
      taskIdSetRef = [], autosaveTimersRef = [], autosaveInFlightRef = {}\<rparr>"

datatype js_error = TypeError

text \<open>The answer of the remote gateway to a read: an error message, or the data (possibly null).\<close>

datatype 'a response = Failed string | Data "'a option"

subsection \<open>Small helpers of the source\<close>

definition makeKey :: "string \<Rightarrow> owner \<Rightarrow> string" where
  "makeKey taskId ow = taskId @ ''::'' @ owner_str ow"

text \<open>\<open>draftByTask?.[taskId]?.[owner] ?? ""\<close>\<close>

definition draft_of :: "draft_cache \<Rightarrow> string \<Rightarrow> owner \<Rightarrow> string" where
  "draft_of D taskId ow =
     (case D taskId of None \<Rightarrow> '''' | Some m \<Rightarrow> (case m ow of None \<Rightarrow> '''' | Some v \<Rightarrow> v))"

text \<open>\<open>notesByTask?.[taskId]?.[owner]?.note ?? ""\<close>\<close>

definition saved_of :: "notes_cache \<Rightarrow> string \<Rightarrow> owner \<Rightarrow> string" where
  "saved_of N taskId ow =
     (case N taskId of None \<Rightarrow> '''' | Some m \<Rightarrow> (case m ow of None \<Rightarrow> '''' | Some e \<Rightarrow> e_note e))"

text \<open>\<open>notesByTask?.[taskId]?.[owner]\<close>\<close>

definition entry_of :: "notes_cache \<Rightarrow> string \<Rightarrow> owner \<Rightarrow> note_entry option" where
  "entry_of N taskId ow = (case N taskId of None \<Rightarrow> None | Some m \<Rightarrow> m ow)"

definition draft_entry_of :: "draft_cache \<Rightarrow> string \<Rightarrow> owner \<Rightarrow> string option" where
  "draft_entry_of D taskId ow = (case D taskId of None \<Rightarrow> None | Some m \<Rightarrow> m ow)"

text \<open>
  \<open>String.prototype.trim\<close>: the white space and line terminators among the code units
  below 256 are tab, line feed, vertical tab, form feed, carriage return, space and the
  no-break space.
\<close>

definition is_ws :: "char \<Rightarrow> bool" where
  "is_ws c = ((of_char c :: nat) \<in> {9, 10, 11, 12, 13, 32, 160})"

definition trim :: "string \<Rightarrow> string" where
  "trim s = rev (dropWhile is_ws (rev (dropWhile is_ws s)))"

text \<open>\<open>new Set(xs)\<close> keeps the first occurrence of each member, in insertion order.\<close>

definition set_add :: "'a \<Rightarrow> 'a list \<Rightarrow> 'a list" where
  "set_add x S = (if x \<in> set S then S else S @ [x])"

definition new_Set :: "'a list \<Rightarrow> 'a list" where
  "new_Set xs = fold set_add xs []"

section \<open>Note cache hydration: \<open>loadNotesForTasks\<close>\<close>

definition default_entry :: note_entry where
  "default_entry = \<lparr>e_note = '''', e_updated_at = None, e_id = None\<rparr>"

text \<open>The inner loop over \<open>ALL_OWNERS\<close> that fills the defaults of one task.\<close>

definition default_notes :: "owner \<rightharpoonup> note_entry" where
  "default_notes = fold (\<lambda>ow m. m(ow \<mapsto> default_entry)) ALL_OWNERS Map.empty"

definition default_drafts :: "owner \<rightharpoonup> string" where
  "default_drafts = fold (\<lambda>ow m. m(ow \<mapsto> '''')) ALL_OWNERS Map.empty"

text \<open>The first loop: one default entry per task id and owner.\<close>

definition init_defaults :: "string list \<Rightarrow> notes_cache \<times> draft_cache" where
  "init_defaults taskIds =
     fold (\<lambda>taskId (nn, nd). (nn(taskId \<mapsto> default_notes), nd(taskId \<mapsto> default_drafts)))
       taskIds (Map.empty, Map.empty)"

definition entry_of_row :: "TaskNoteRow \<Rightarrow> note_entry" where
  "entry_of_row r =
     \<lparr>e_note = (case r_note r of None \<Rightarrow> '''' | Some v \<Rightarrow> v),
      e_updated_at = Some (r_updated_at r), e_id = Some (r_id r)\<rparr>"

text \<open>
  The second loop: a row of an unknown task is skipped; writing through a missing
  \<open>nextDraft[r.task_id]\<close> would throw.
\<close>

fun apply_rows :: "TaskNoteRow list \<Rightarrow> notes_cache \<times> draft_cache
    \<Rightarrow> js_error + (notes_cache \<times> draft_cache)" where
  "apply_rows [] acc = Inr acc"
| "apply_rows (r # rs) (nn, nd) =
     (case nn (r_task_id r) of
        None \<Rightarrow> apply_rows rs (nn, nd)
      | Some m \<Rightarrow>
          (case nd (r_task_id r) of
             None \<Rightarrow> Inl TypeError
           | Some d \<Rightarrow>
               apply_rows rs
                 (nn(r_task_id r \<mapsto> m(r_owner r \<mapsto> entry_of_row r)),
                  nd(r_task_id r \<mapsto> d(r_owner r \<mapsto> e_note (entry_of_row r))))))"

text \<open>
  \<open>loadNotesForTasks\<close> up to its \<open>await\<close>: the error banner is cleared; with no task id
  both caches are reset and nothing is fetched (the result is \<open>None\<close>), otherwise the
  fetch of the rows of these task ids is issued.
\<close>

definition loadNotesForTasks_begin :: "string list \<Rightarrow> dashboard \<Rightarrow> string list option \<times> dashboard" where
  "loadNotesForTasks_begin taskIds st =
     (let st1 = st\<lparr>errorMsg := ''''\<rparr> in
      if length taskIds = 0
      then (None, st1\<lparr>notesByTask := Map.empty, draftByTask := Map.empty\<rparr>)
      else (Some taskIds, st1))"

text \<open>\<open>loadNotesForTasks\<close> after its \<open>await\<close>, on the answer of the gateway.\<close>

definition loadNotesForTasks_finish ::
    "string list \<Rightarrow> TaskNoteRow list response \<Rightarrow> dashboard \<Rightarrow> js_error + dashboard" where
  "loadNotesForTasks_finish taskIds resp st =
     (case resp of
        Failed msg \<Rightarrow> Inr (st\<lparr>errorMsg := ''Failed to load task notes: '' @ msg\<rparr>)
      | Data data \<Rightarrow>
          (let noteRows = (case data of None \<Rightarrow> [] | Some rows \<Rightarrow> rows) in
           case apply_rows noteRows (init_defaults taskIds) of
             Inl e \<Rightarrow> Inl e
           | Inr (nextNotes, nextDraft) \<Rightarrow>
               Inr (st\<lparr>notesByTask := nextNotes, draftByTask := nextDraft\<rparr>)))"

text \<open>The row that decides the entry of a pair: the last fetched row of that pair.\<close>

definition last_row :: "TaskNoteRow list \<Rightarrow> string \<Rightarrow> owner \<Rightarrow> TaskNoteRow option" where
  "last_row rows taskId ow =
     find (\<lambda>r. r_task_id r = taskId \<and> r_owner r = ow) (rev rows)"

section \<open>Task loading and task mutations\<close>

text \<open>
  \<open>loadTasks\<close> after its \<open>await\<close>: on success the task list and the set of visible task
  ids are replaced and the notes of these tasks are loaded (up to the fetch).
\<close>

definition loadTasks_finish :: "TaskRow list response \<Rightarrow> dashboard \<Rightarrow> string list option \<times> dashboard" where
  "loadTasks_finish resp st =
     (case resp of
        Failed msg \<Rightarrow> (None, st\<lparr>errorMsg := ''Failed to load tasks: '' @ msg\<rparr>)
      | Data data \<Rightarrow>
          (let rows = (case data of None \<Rightarrow> [] | Some rs \<Rightarrow> rs);
               st1 = st\<lparr>tasks := rows, taskIdSetRef := new_Set (map t_id rows)\<rparr>
           in loadNotesForTasks_begin (map t_id rows) st1))"

record task_insert =
  i_week_number :: int
  i_owner :: owner
  i_description :: string
  i_status :: status

text \<open>
  \<open>addTask\<close> up to its \<open>await\<close>. \<open>!selectedWeek\<close> holds for \<open>null\<close> and for the
  number 0; \<open>!desc\<close> holds for the empty string.
\<close>

definition addTask_begin :: "dashboard \<Rightarrow> task_insert option \<times> dashboard" where
  "addTask_begin st =
     (case selectedWeek st of
        None \<Rightarrow> (None, st)
      | Some w \<Rightarrow>
          if w = 0 then (None, st)
          else (let desc = trim (newDesc st) in
                if desc = [] then (None, st)
                else (Some \<lparr>i_week_number = w, i_owner = newOwner st,
                            i_description = desc, i_status = Pending\<rparr>,
                      st\<lparr>errorMsg := ''''\<rparr>)))"

definition addTask_finish :: "string option \<Rightarrow> dashboard \<Rightarrow> dashboard" where
  "addTask_finish err st =
     (case err of
        Some msg \<Rightarrow> st\<lparr>errorMsg := ''Failed to add task: '' @ msg\<rparr>
      | None \<Rightarrow> st\<lparr>newDesc := ''''\<rparr>)"

section \<open>Saving a note: \<open>saveNote\<close>\<close>

record upsert_req =
  u_task_id :: string
  u_owner :: owner
  u_note :: string

text \<open>\<open>noteOverride ?? (draftByTask?.[taskId]?.[owner] ?? "")\<close>\<close>

definition raw_of :: "draft_cache \<Rightarrow> string \<Rightarrow> owner \<Rightarrow> string option \<Rightarrow> string" where
  "raw_of D taskId ow noteOverride =
     (case noteOverride of Some v \<Rightarrow> v | None \<Rightarrow> draft_of D taskId ow)"

text \<open>
  \<open>saveNote\<close> up to its \<open>await\<close>. The function belongs to a render and reads the
  \<open>draftByTask\<close> of that render (\<open>D\<close>); the refs and the state setters act on the current
  state. The result is the upsert that is issued, if any.
\<close>

definition saveNote_begin ::
    "draft_cache \<Rightarrow> string \<Rightarrow> owner \<Rightarrow> string option \<Rightarrow> dashboard \<Rightarrow> upsert_req option \<times> dashboard" where
  "saveNote_begin D taskId ow noteOverride st =
     (let st1 = st\<lparr>errorMsg := ''''\<rparr>;
          raw = raw_of D taskId ow noteOverride;
          note = trim raw;
          key = makeKey taskId ow
      in if key \<in> autosaveInFlightRef st1 then (None, st1)
         else (Some \<lparr>u_task_id = taskId, u_owner = ow, u_note = note\<rparr>,
               st1\<lparr>autosaveInFlightRef := insert key (autosaveInFlightRef st1),
                    savingKeys := (savingKeys st1)(key \<mapsto> True)\<rparr>))"

text \<open>
  \<open>saveNote\<close> after its \<open>await\<close>: \<open>err\<close> is the error of the upsert, if any, and \<open>now\<close>
  is \<open>new Date().toISOString()\<close> at that moment.
\<close>

definition saveNote_finish ::
    "string \<Rightarrow> owner \<Rightarrow> string \<Rightarrow> string option \<Rightarrow> string \<Rightarrow> dashboard \<Rightarrow> dashboard" where
  "saveNote_finish taskId ow note err now st =
     (let key = makeKey taskId ow;
          st1 = st\<lparr>autosaveInFlightRef := autosaveInFlightRef st - {key},
                   savingKeys := (savingKeys st)(key \<mapsto> False)\<rparr>
      in case err of
           Some msg \<Rightarrow> st1\<lparr>errorMsg := ''Failed to save note: '' @ msg\<rparr>
         | None \<Rightarrow>
             st1\<lparr>notesByTask :=
                   (notesByTask st1)(taskId \<mapsto>
                     (case notesByTask st1 taskId of None \<Rightarrow> Map.empty | Some m \<Rightarrow> m)
                       (ow \<mapsto> \<lparr>e_note = note, e_updated_at = Some now, e_id = None\<rparr>))\<rparr>)"

text \<open>The whole of \<open>saveNote\<close>, called from the button, when its upsert succeeds at \<open>now\<close>.\<close>

definition saveNote_ok :: "string \<Rightarrow> owner \<Rightarrow> string \<Rightarrow> dashboard \<Rightarrow> dashboard" where
  "saveNote_ok taskId ow now st =
     saveNote_finish taskId ow (trim (draft_of (draftByTask st) taskId ow)) None now
       (snd (saveNote_begin (draftByTask st) taskId ow None st))"

section \<open>Realtime: the handler of the \<open>task_notes\<close> channel\<close>

record note_event =
  ev_new_task_id :: "string option"
  ev_old_task_id :: "string option"

text \<open>\<open>payload?.new?.task_id ?? payload?.old?.task_id\<close>\<close>

definition event_task_id :: "note_event \<Rightarrow> string option" where
  "event_task_id p = (case ev_new_task_id p of Some t \<Rightarrow> Some t | None \<Rightarrow> ev_old_task_id p)"

text \<open>
  The handler up to the \<open>await\<close> inside \<open>loadNotesForTasks\<close>; \<open>taskId && \<dots>\<close> is false
  for a missing and for an empty task id.
\<close>

definition notesChannel_handler :: "note_event \<Rightarrow> dashboard \<Rightarrow> string list option \<times> dashboard" where
  "notesChannel_handler p st =
     (case event_task_id p of
        None \<Rightarrow> (None, st)
      | Some taskId \<Rightarrow>
          if taskId \<noteq> [] \<and> taskId \<in> set (taskIdSetRef st)
          then loadNotesForTasks_begin (taskIdSetRef st) st
          else (None, st))"

section \<open>The autosave effect, its timers and the event loop\<close>

text \<open>
  The autosave effect runs inside React and the timers inside the browser. What the
  source relies on is written out here: \<open>setTimeout\<close> hands out fresh positive ids and
  its callback runs once the delay has passed, unless \<open>clearTimeout\<close> was called with
  its id before; a state setter called with a new object changes a dependency of the
  effect; when React commits a render after such a change it runs the cleanup of the last
  effect run and then the effect, with the state of that render; between the setter call
  and the commit other events of the loop, a due timer among them, can run.
\<close>

text \<open>
  The callback given to \<open>setTimeout\<close> by the autosave effect is a closure: besides the
  task id and the owner of its loop iteration it holds the \<open>draftByTask\<close> and
  \<open>notesByTask\<close> of the render whose effect created it.
\<close>

record closure =
  c_taskId :: string
  c_owner :: owner
  c_draftByTask :: draft_cache
  c_notesByTask :: notes_cache

record timeout =
  tm_id :: nat
  tm_deadline :: nat
  tm_cb :: closure

text \<open>
  The component in its environment: the clock in milliseconds, the pending timeouts of
  the browser (oldest first), the next timer id, whether a dependency of the autosave
  effect (\<open>draftByTask\<close>, \<open>notesByTask\<close>, \<open>tasks\<close>) was set since the effect last ran,
  the \<open>draftByTask\<close> of the last committed render (the one that the \<open>saveNote\<close> of the
  buttons on screen reads), the upserts awaiting their answer, and every upsert issued so
  far (oldest first).
\<close>

record world =
  w_dash :: dashboard
  w_clock :: nat
  w_timeouts :: "timeout list"
  w_nextTimerId :: nat
  w_depsChanged :: bool
  w_renderedDrafts :: draft_cache
  w_pending :: "upsert_req list"
  w_writes :: "upsert_req list"

definition delayMs :: nat where
  "delayMs = 1500"

definition clearTimeout :: "nat \<Rightarrow> world \<Rightarrow> world" where
  "clearTimeout i w = w\<lparr>w_timeouts := filter (\<lambda>tm. tm_id tm \<noteq> i) (w_timeouts w)\<rparr>"

definition setTimeout :: "closure \<Rightarrow> nat \<Rightarrow> world \<Rightarrow> nat \<times> world" where
  "setTimeout cb delay w =
     (w_nextTimerId w,
      w\<lparr>w_timeouts := w_timeouts w @
           [\<lparr>tm_id = w_nextTimerId w, tm_deadline = w_clock w + delay, tm_cb = cb\<rparr>],
        w_nextTimerId := w_nextTimerId w + 1\<rparr>)"

text \<open>\<open>obj[key] = v\<close> on an object kept as an association list.\<close>

fun obj_set :: "'k \<Rightarrow> 'v \<Rightarrow> ('k \<times> 'v) list \<Rightarrow> ('k \<times> 'v) list" where
  "obj_set k v [] = [(k, v)]"
| "obj_set k v ((k', v') # kvs) =
     (if k' = k then (k, v) # kvs else (k', v') # obj_set k v kvs)"

text \<open>
  One iteration of the inner loop of the autosave effect, for the render with the caches
  \<open>D\<close> and \<open>N\<close>: nothing when draft and saved note agree; otherwise the existing timer
  of the key (if its id is truthy) is cleared and a new one is set.
\<close>

definition arm_timer :: "draft_cache \<Rightarrow> notes_cache \<Rightarrow> string \<Rightarrow> owner \<Rightarrow> world \<Rightarrow> world" where
  "arm_timer D N taskId ow w =
     (if draft_of D taskId ow = saved_of N taskId ow then w
      else
        (let key = makeKey taskId ow;
             w1 = (case map_of (autosaveTimersRef (w_dash w)) key of
                     None \<Rightarrow> w
                   | Some i \<Rightarrow> if i = 0 then w else clearTimeout i w);
             (i, w2) = setTimeout \<lparr>c_taskId = taskId, c_owner = ow,
                                   c_draftByTask = D, c_notesByTask = N\<rparr> delayMs w1
         in w2\<lparr>w_dash := (w_dash w2)\<lparr>autosaveTimersRef :=
                  obj_set key i (autosaveTimersRef (w_dash w2))\<rparr>\<rparr>))"

definition autosave_effect :: "world \<Rightarrow> world" where
  "autosave_effect w =
     (let D = draftByTask (w_dash w); N = notesByTask (w_dash w) in
      fold (\<lambda>task w1. fold (\<lambda>ow w2. arm_timer D N (t_id task) ow w2) ALL_OWNERS w1)
        (tasks (w_dash w)) w)"

text \<open>The cleanup of the effect clears the timer of every key of \<open>autosaveTimersRef\<close>.\<close>

definition autosave_cleanup :: "world \<Rightarrow> world" where
  "autosave_cleanup w =
     fold (\<lambda>(key, i) w1. clearTimeout i w1) (autosaveTimersRef (w_dash w)) w"

text \<open>
  React commits a render: when a dependency of the effect was set, the cleanup of the
  previous run and then the effect run, and the drafts of the committed render are the
  current ones (they are a dependency, so otherwise they are those of the last commit).
\<close>

definition commit :: "world \<Rightarrow> world" where
  "commit w =
     (if w_depsChanged w
      then (autosave_effect (autosave_cleanup w))
             \<lparr>w_depsChanged := False, w_renderedDrafts := draftByTask (w_dash w)\<rparr>
      else w)"

text \<open>The callback of a timer, run on the current state of the component.\<close>

definition timerCallback :: "closure \<Rightarrow> dashboard \<Rightarrow> upsert_req option \<times> dashboard" where
  "timerCallback cl st =
     (let latestDraft = draft_of (c_draftByTask cl) (c_taskId cl) (c_owner cl);
          latestSaved = saved_of (c_notesByTask cl) (c_taskId cl) (c_owner cl)
      in if latestDraft \<noteq> latestSaved
         then saveNote_begin (c_draftByTask cl) (c_taskId cl) (c_owner cl) (Some latestDraft) st
         else (None, st))"

text \<open>A call of \<open>saveNote\<close> has run up to its \<open>await\<close>: its upsert, if any, is now pending.\<close>

definition issue :: "upsert_req option \<times> dashboard \<Rightarrow> world \<Rightarrow> world" where
  "issue res w =
     (case fst res of
        None \<Rightarrow> w\<lparr>w_dash := snd res\<rparr>
      | Some r \<Rightarrow> w\<lparr>w_dash := snd res, w_pending := w_pending w @ [r],
                     w_writes := w_writes w @ [r]\<rparr>)"

definition fire :: "timeout \<Rightarrow> world \<Rightarrow> world" where
  "fire tm w = issue (timerCallback (tm_cb tm) (w_dash w)) w"

text \<open>\<open>d\<close> milliseconds pass: the timeouts that are due leave the queue and run, oldest first.\<close>

definition advance :: "nat \<Rightarrow> world \<Rightarrow> world" where
  "advance d w =
     (let now = w_clock w + d;
          due = filter (\<lambda>tm. tm_deadline tm \<le> now) (w_timeouts w);
          rest = filter (\<lambda>tm. \<not> tm_deadline tm \<le> now) (w_timeouts w)
      in fold fire due (w\<lparr>w_clock := now, w_timeouts := rest\<rparr>))"

text \<open>The \<open>onChange\<close> handler of a note editor.\<close>

definition edit_draft :: "string \<Rightarrow> owner \<Rightarrow> string \<Rightarrow> dashboard \<Rightarrow> dashboard" where
  "edit_draft taskId ow v st =
     st\<lparr>draftByTask := (draftByTask st)(taskId \<mapsto>
          (case draftByTask st taskId of None \<Rightarrow> Map.empty | Some m \<Rightarrow> m)(ow \<mapsto> v))\<rparr>"

datatype event =
    Edit string owner string
  | Commit
  | Advance nat
  | ClickSave string owner
  | UpsertDone nat "string option" string
  | TasksLoaded "TaskRow list response"
  | NotesLoaded "string list" "TaskNoteRow list response"

text \<open>
  One step of the event loop: a key stroke in an editor, a commit, time passing, a click
  on "Save update", the answer to the \<open>n\<close>-th pending upsert, the answer to a task fetch
  (\<open>loadTasks\<close> after its \<open>await\<close>, up to the fetch of the notes) and the answer to
  the note fetch of \<open>loadNotesForTasks\<close> for the given task ids, which is only issued
  for a non-empty list. The click runs the \<open>saveNote\<close> of the last committed render,
  which reads the drafts of that render.
\<close>

fun step :: "event \<Rightarrow> world \<Rightarrow> world" where
  "step (Edit taskId ow v) w =
     w\<lparr>w_dash := edit_draft taskId ow v (w_dash w), w_depsChanged := True\<rparr>"
| "step Commit w = commit w"
| "step (Advance d) w = advance d w"
| "step (ClickSave taskId ow) w =
     issue (saveNote_begin (w_renderedDrafts w) taskId ow None (w_dash w)) w"
| "step (UpsertDone n err now) w =
     (if n < length (w_pending w)
      then (let r = w_pending w ! n in
            w\<lparr>w_dash := saveNote_finish (u_task_id r) (u_owner r) (u_note r) err now (w_dash w),
              w_pending := take n (w_pending w) @ drop (Suc n) (w_pending w),
              w_depsChanged := (w_depsChanged w \<or> err = None)\<rparr>)
      else w)"
| "step (TasksLoaded resp) w =
     w\<lparr>w_dash := snd (loadTasks_finish resp (w_dash w)),
       w_depsChanged := (case resp of Failed msg \<Rightarrow> w_depsChanged w | Data data \<Rightarrow> True)\<rparr>"
| "step (NotesLoaded taskIds resp) w =
     (if length taskIds = 0 then w
      else (case loadNotesForTasks_finish taskIds resp (w_dash w) of
              Inl e \<Rightarrow> w
            | Inr st \<Rightarrow>
                w\<lparr>w_dash := st,
                  w_depsChanged :=
                    (case resp of Failed msg \<Rightarrow> w_depsChanged w | Data data \<Rightarrow> True)\<rparr>))"

text \<open>A run of the event loop, and the component as it mounts.\<close>

definition run :: "event list \<Rightarrow> world \<Rightarrow> world" where
  "run evs w = fold step evs w"

definition world0 :: world where
  "world0 = \<lparr>w_dash = dashboard0, w_clock = 0, w_timeouts = [], w_nextTimerId = 1,
             w_depsChanged = True, w_renderedDrafts = Map.empty, w_pending = [], w_writes = []\<rparr>"

section \<open>The remote store of notes\<close>

record StoredNote =
  s_id :: string
  s_task_id :: string
  s_owner :: owner
  s_note :: string
  s_updated_at :: string

text \<open>The stored rows of one task id and owner.\<close>

definition rows_for :: "string \<Rightarrow> owner \<Rightarrow> StoredNote list \<Rightarrow> StoredNote list" where
  "rows_for taskId ow rows = filter (\<lambda>s. s_task_id s = taskId \<and> s_owner s = ow) rows"

text \<open>
  Modelled from the spec: the \<open>task_notes\<close> collection of the remote gateway and its
  upsert on the conflict target \<open>(task_id, owner)\<close> are not part of the sources. The spec
  describes the collection as \<open>task_notes(id, task_id, owner, note, updated_at)\<close> with a
  uniqueness constraint on \<open>(task_id, owner)\<close>, a note row as not existing until the first
  save of its pair, later saves as overwriting in place, and \<open>updated_at\<close> as set by the
  store on write. \<open>fresh\<close> is the id the store gives a new row, \<open>now\<close> its clock.
\<close>

definition store_upsert :: "upsert_req \<Rightarrow> string \<Rightarrow> string \<Rightarrow> StoredNote list \<Rightarrow> StoredNote list" where
  "store_upsert r fresh now rows =
     (if list_ex (\<lambda>s. s_task_id s = u_task_id r \<and> s_owner s = u_owner r) rows
      then map (\<lambda>s. if s_task_id s = u_task_id r \<and> s_owner s = u_owner r
                     then s\<lparr>s_note := u_note r, s_updated_at := now\<rparr> else s) rows
      else rows @ [\<lparr>s_id = fresh, s_task_id = u_task_id r, s_owner = u_owner r,
                     s_note = u_note r, s_updated_at = now\<rparr>])"

section \<open>Definitions used in the statements and proofs\<close>

text \<open>The draft cache that mirrors a note cache: the same keys, each entry the note text.\<close>

definition mirror_of :: "notes_cache \<Rightarrow> draft_cache" where
  "mirror_of nn = (\<lambda>t. map_option (\<lambda>m ow. map_option e_note (m ow)) (nn t))"

definition rows_of :: "'a list option \<Rightarrow> 'a list" where
  "rows_of data = (case data of None \<Rightarrow> [] | Some rows \<Rightarrow> rows)"

text \<open>The key of an upsert and of a pending timeout.\<close>

definition req_key :: "upsert_req \<Rightarrow> string" where
  "req_key r = makeKey (u_task_id r) (u_owner r)"

definition tm_key :: "timeout \<Rightarrow> string" where
  "tm_key tm = makeKey (c_taskId (tm_cb tm)) (c_owner (tm_cb tm))"

text \<open>The upserts issued so far for one task id and owner.\<close>

definition writes_for :: "string \<Rightarrow> owner \<Rightarrow> world \<Rightarrow> upsert_req list" where
  "writes_for taskId ow w =
     filter (\<lambda>r. u_task_id r = taskId \<and> u_owner r = ow) (w_writes w)"

text \<open>The autosave effect treats a pair as changed when draft and saved note differ.\<close>

definition dirty :: "draft_cache \<Rightarrow> notes_cache \<Rightarrow> string \<Rightarrow> owner \<Rightarrow> bool" where
  "dirty D N taskId ow = (draft_of D taskId ow \<noteq> saved_of N taskId ow)"

text \<open>
  The bookkeeping of the timers: pending timeouts have distinct positive ids below the
  next id, the id of each is the entry of its own key in \<open>autosaveTimersRef\<close> and of no
  other key, and every id stored there is below the next id.
\<close>

definition tracked :: "world \<Rightarrow> bool" where
  "tracked w =
     (0 < w_nextTimerId w
      \<and> distinct (map tm_id (w_timeouts w))
      \<and> (\<forall>tm \<in> set (w_timeouts w).
            0 < tm_id tm \<and> tm_id tm < w_nextTimerId w
            \<and> (\<forall>k. (map_of (autosaveTimersRef (w_dash w)) k = Some (tm_id tm)) = (k = tm_key tm)))
      \<and> (\<forall>k i. map_of (autosaveTimersRef (w_dash w)) k = Some i \<longrightarrow> i < w_nextTimerId w))"

text \<open>Every pending timeout was set at clock \<open>c\<close> by the effect of the render with \<open>D\<close> and \<open>N\<close>.\<close>

definition armed :: "nat \<Rightarrow> draft_cache \<Rightarrow> notes_cache \<Rightarrow> world \<Rightarrow> bool" where
  "armed c D N w =
     (\<forall>tm \<in> set (w_timeouts w).
        tm_deadline tm = c + delayMs
        \<and> c_draftByTask (tm_cb tm) = D \<and> c_notesByTask (tm_cb tm) = N
        \<and> dirty D N (c_taskId (tm_cb tm)) (c_owner (tm_cb tm)))"

definition has_timer :: "string \<Rightarrow> owner \<Rightarrow> world \<Rightarrow> bool" where
  "has_timer taskId ow w =
     (\<exists>tm \<in> set (w_timeouts w). c_taskId (tm_cb tm) = taskId \<and> c_owner (tm_cb tm) = ow)"

text \<open>
  Typing into one editor: each value is typed, the render is committed, and \<open>g\<close>
  milliseconds pass before the next key stroke.
\<close>

definition typing :: "string \<Rightarrow> owner \<Rightarrow> (string \<times> nat) list \<Rightarrow> event list" where
  "typing taskId ow edits = concat (map (\<lambda>(v, g). [Edit taskId ow v, Commit, Advance g]) edits)"


text \<open>Mutual exclusion: the pending upserts have distinct keys, all marked in flight.\<close>

definition excl :: "world \<Rightarrow> bool" where
  "excl w = (distinct (map req_key (w_pending w))
     \<and> set (map req_key (w_pending w)) \<subseteq> autosaveInFlightRef (w_dash w))"

text \<open>Two worlds that differ at most in the timers and their bookkeeping.\<close>

definition timers_only :: "world \<Rightarrow> world \<Rightarrow> bool" where
  "timers_only w w' = (\<exists>T n R. w' = w\<lparr>w_timeouts := T, w_nextTimerId := n,
       w_dash := (w_dash w)\<lparr>autosaveTimersRef := R\<rparr>\<rparr>)"

section \<open>Concrete inputs\<close>

text \<open>A stored note of owner B for the task \<open>t1\<close>, as a fetch returns it.\<close>

definition row1 :: TaskNoteRow where
  "row1 = \<lparr>r_id = ''n1'', r_task_id = ''t1'', r_owner = OWNER_B, r_note = Some ''En route'',
           r_updated_at = ''2024-01-01T00:00:00.000Z''\<rparr>"

text \<open>Week 3 is selected and a description with blanks at both ends is typed.\<close>

definition typing1 :: dashboard where
  "typing1 = dashboard0\<lparr>selectedWeek := Some 3, newOwner := OWNER_A, newDesc := '' Call clinic ''\<rparr>"

text \<open>Two tasks are visible.\<close>

definition visible1 :: dashboard where
  "visible1 = dashboard0\<lparr>taskIdSetRef := [''t1'', ''t2'']\<rparr>"

text \<open>One task of week 3, and the run that loads it, loads its (no) notes and commits.\<close>

definition task1 :: TaskRow where
  "task1 = \<lparr>t_id = ''t1'', t_week_number = 3, t_owner = OWNER_A,
            t_description = ''Call clinic'', t_status = Pending\<rparr>"

definition ready1 :: "event list" where
  "ready1 = [TasksLoaded (Data (Some [task1])), NotesLoaded [''t1''] (Data (Some [])), Commit]"

text \<open>
  Two key strokes 200 ms apart into the editor of owner B of the loaded task, the second
  leaving a trailing blank, followed by a quiet debounce window.
\<close>

definition w_typed :: world where
  "w_typed = run (ready1 @ [Edit ''t1'' OWNER_B ''En'', Commit, Advance 200,
                            Edit ''t1'' OWNER_B ''En route '', Commit, Advance 1500]) world0"

text \<open>
  A key stroke arms a timer; one second later a pushed change has rehydrated the caches
  from the row \<open>row1\<close>, and the render of the new state is not yet committed.
\<close>

definition w_stale :: world where
  "w_stale = run (ready1 @ [Edit ''t1'' OWNER_B ''x'', Commit, Advance 1000,
                            NotesLoaded [''t1''] (Data (Some [row1]))]) world0"

text \<open>The run up to a click on "Save update" while owner B's draft of the task is unsaved.\<close>

definition clicked1 :: "event list" where
  "clicked1 = ready1 @ [Edit ''t1'' OWNER_B ''x'', Commit, ClickSave ''t1'' OWNER_B]"




text \<open>Owner A has typed \<open>a\<close> for the task; then that draft was saved once, successfully.\<close>

definition drafted1 :: dashboard where
  "drafted1 = edit_draft ''t1'' OWNER_A ''a'' dashboard0"

definition saved_once :: dashboard where
  "saved_once =
     saveNote_finish ''t1'' OWNER_A ''a'' None ''2024-01-01T00:00:01.000Z''
       (snd (saveNote_begin (draftByTask drafted1) ''t1'' OWNER_A None drafted1))"

text \<open>A stored row of owner A for the task.\<close>

definition old_row :: StoredNote where
  "old_row = \<lparr>s_id = ''n7'', s_task_id = ''t1'', s_owner = OWNER_A, s_note = ''old'',
              s_updated_at = ''2024-01-01T00:00:00.000Z''\<rparr>"

section \<open>Hydration\<close>

lemma default_notes_apply: "default_notes ow = Some default_entry"
  by (cases ow) (simp_all add: default_notes_def ALL_OWNERS_def)

lemma default_drafts_apply: "default_drafts ow = Some ''''"
  by (cases ow) (simp_all add: default_drafts_def ALL_OWNERS_def)

lemma find_app:
  "find P (xs @ ys) = (case find P xs of None \<Rightarrow> find P ys | Some x \<Rightarrow> Some x)"
  by (induction xs) auto

lemma init_defaults_gen:
  "fold (\<lambda>taskId (nn, nd). (nn(taskId \<mapsto> default_notes), nd(taskId \<mapsto> default_drafts))) ids (nn0, nd0)
   = ((\<lambda>t. if t \<in> set ids then Some default_notes else nn0 t),
      (\<lambda>t. if t \<in> set ids then Some default_drafts else nd0 t))"
  by (induction ids arbitrary: nn0 nd0) (auto simp: fun_eq_iff)

lemma init_defaults_eq:
  "init_defaults ids = ((\<lambda>t. if t \<in> set ids then Some default_notes else None),
      (\<lambda>t. if t \<in> set ids then Some default_drafts else None))"
  unfolding init_defaults_def by (simp add: init_defaults_gen)

lemma init_defaults_mirror: "snd (init_defaults ids) = mirror_of (fst (init_defaults ids))"
  by (auto simp: init_defaults_eq mirror_of_def fun_eq_iff default_notes_apply default_drafts_apply default_entry_def)

lemma mirror_of_upd:
  "nn t = Some m \<Longrightarrow>
   (mirror_of nn)(t \<mapsto> (\<lambda>ow. map_option e_note (m ow))(ow \<mapsto> e_note e)) = mirror_of (nn(t \<mapsto> m(ow \<mapsto> e)))"
  by (auto simp: mirror_of_def fun_eq_iff)

lemma apply_rows_mirror:
  "\<exists>nn'. apply_rows rows (nn, mirror_of nn) = Inr (nn', mirror_of nn')
      \<and> dom nn' = dom nn
      \<and> (\<forall>t ow. entry_of nn' t ow =
            (if t \<in> dom nn
             then (case last_row rows t ow of None \<Rightarrow> entry_of nn t ow | Some r \<Rightarrow> Some (entry_of_row r))
             else None))"
proof (induction rows arbitrary: nn)
  case Nil
  then show ?case by (auto simp: last_row_def entry_of_def split: option.splits)
next
  case (Cons r rs)
  show ?case
  proof (cases "nn (r_task_id r)")
    case None
    from Cons.IH[of nn] obtain nn' where
      h: "apply_rows rs (nn, mirror_of nn) = Inr (nn', mirror_of nn')" "dom nn' = dom nn"
         "\<forall>t ow. entry_of nn' t ow =
            (if t \<in> dom nn
             then (case last_row rs t ow of None \<Rightarrow> entry_of nn t ow | Some r \<Rightarrow> Some (entry_of_row r))
             else None)" by blast
    have lr: "\<And>t ow. t \<in> dom nn \<Longrightarrow> last_row (r # rs) t ow = last_row rs t ow"
      using None by (auto simp: last_row_def find_app split: option.splits)
    show ?thesis using None h lr by (auto simp: )
  next
    case (Some m)
    let ?nn1 = "nn(r_task_id r \<mapsto> m(r_owner r \<mapsto> entry_of_row r))"
    have md: "mirror_of nn (r_task_id r) = Some (\<lambda>ow. map_option e_note (m ow))"
      using Some by (simp add: mirror_of_def)
    from Cons.IH[of ?nn1] obtain nn' where
      h: "apply_rows rs (?nn1, mirror_of ?nn1) = Inr (nn', mirror_of nn')" "dom nn' = dom ?nn1"
         "\<forall>t ow. entry_of nn' t ow =
            (if t \<in> dom ?nn1
             then (case last_row rs t ow of None \<Rightarrow> entry_of ?nn1 t ow | Some r \<Rightarrow> Some (entry_of_row r))
             else None)" by blast
    have step: "apply_rows (r # rs) (nn, mirror_of nn) = Inr (nn', mirror_of nn')"
      using Some md h(1) mirror_of_upd[of nn "r_task_id r" m "r_owner r" "entry_of_row r"] by simp
    have d: "dom ?nn1 = dom nn" using Some by auto
    have e: "\<And>t ow. t \<in> dom nn \<Longrightarrow>
        (case last_row rs t ow of None \<Rightarrow> entry_of ?nn1 t ow | Some r \<Rightarrow> Some (entry_of_row r))
        = (case last_row (r # rs) t ow of None \<Rightarrow> entry_of nn t ow | Some r \<Rightarrow> Some (entry_of_row r))"
      using Some by (auto simp: last_row_def find_app entry_of_def split: option.splits)
    show ?thesis using step d h(2,3) e by (auto simp: )
  qed
qed

lemma mirror_clean: "draft_of (mirror_of nn) t ow = saved_of nn t ow"
  by (simp add: draft_of_def saved_of_def mirror_of_def split: option.splits)

lemma mirror_entry: "draft_entry_of (mirror_of nn) t ow = map_option e_note (entry_of nn t ow)"
  by (simp add: draft_entry_of_def entry_of_def mirror_of_def split: option.splits)

lemma dom_mirror: "dom (mirror_of nn) = dom nn"
  by (auto simp: mirror_of_def dom_def)

lemma hydrate_rows:
  "\<exists>nn'. apply_rows rows (init_defaults taskIds) = Inr (nn', mirror_of nn')
      \<and> dom nn' = set taskIds
      \<and> (\<forall>t ow. entry_of nn' t ow =
            (if t \<in> set taskIds
             then Some (case last_row rows t ow of None \<Rightarrow> default_entry | Some r \<Rightarrow> entry_of_row r)
             else None))"
proof -
  let ?nn = "fst (init_defaults taskIds)"
  have i: "init_defaults taskIds = (?nn, mirror_of ?nn)"
    using init_defaults_mirror[of taskIds] by (metis prod.collapse)
  have d: "dom ?nn = set taskIds"
    by (auto simp: init_defaults_eq split: if_splits)
  have e: "\<And>t ow. t \<in> set taskIds \<Longrightarrow> entry_of ?nn t ow = Some default_entry"
    by (simp add: init_defaults_eq entry_of_def default_notes_apply)
  from apply_rows_mirror[of rows ?nn] obtain nn' where
    h: "apply_rows rows (?nn, mirror_of ?nn) = Inr (nn', mirror_of nn')" "dom nn' = dom ?nn"
       "\<forall>t ow. entry_of nn' t ow =
            (if t \<in> dom ?nn
             then (case last_row rows t ow of None \<Rightarrow> entry_of ?nn t ow | Some r \<Rightarrow> Some (entry_of_row r))
             else None)" by blast
  have "\<forall>t ow. entry_of nn' t ow =
            (if t \<in> set taskIds
             then Some (case last_row rows t ow of None \<Rightarrow> default_entry | Some r \<Rightarrow> entry_of_row r)
             else None)"
    using h(3) d e by (auto split: option.splits)
  with h(1,2) d i show ?thesis by auto
qed

text \<open>
  Claim C6. Hydration over a non-empty list of visible task ids issues the fetch and, on
  its answer, does not throw and leaves a note cache and a draft cache whose keys are
  exactly the given task ids; for every such task id and each of the two owners the note
  cache holds one entry, the default (empty note, no timestamp, no id) when no fetched row
  has that pair and the last fetched row of the pair otherwise, and the draft cache holds
  the note text of that entry. Hence draft and saved note agree for every pair.
\<close>

theorem hydration_covers_every_pair:
  assumes "taskIds \<noteq> []"
  shows "fst (loadNotesForTasks_begin taskIds st) = Some taskIds \<and>
    (\<exists>st'. loadNotesForTasks_finish taskIds (Data data) (snd (loadNotesForTasks_begin taskIds st)) = Inr st'
       \<and> dom (notesByTask st') = set taskIds
       \<and> dom (draftByTask st') = set taskIds
       \<and> (\<forall>t \<in> set taskIds. \<forall>ow.
             entry_of (notesByTask st') t ow =
               Some (case last_row (rows_of data) t ow of
                       None \<Rightarrow> default_entry | Some r \<Rightarrow> entry_of_row r)
           \<and> draft_entry_of (draftByTask st') t ow =
               map_option e_note (entry_of (notesByTask st') t ow))
       \<and> (\<forall>t ow. draft_of (draftByTask st') t ow = saved_of (notesByTask st') t ow))"
proof -
  from hydrate_rows[of "rows_of data" taskIds] obtain nn' where
    h: "apply_rows (rows_of data) (init_defaults taskIds) = Inr (nn', mirror_of nn')"
       "dom nn' = set taskIds"
       "\<forall>t ow. entry_of nn' t ow =
            (if t \<in> set taskIds
             then Some (case last_row (rows_of data) t ow of None \<Rightarrow> default_entry | Some r \<Rightarrow> entry_of_row r)
             else None)" by blast
  let ?st1 = "snd (loadNotesForTasks_begin taskIds st)"
  have f: "loadNotesForTasks_finish taskIds (Data data) ?st1
            = Inr (?st1\<lparr>notesByTask := nn', draftByTask := mirror_of nn'\<rparr>)"
    using h(1) by (simp add: loadNotesForTasks_finish_def rows_of_def)
  have b: "fst (loadNotesForTasks_begin taskIds st) = Some taskIds"
    using assms by (simp add: loadNotesForTasks_begin_def Let_def)
  show ?thesis
    using b f h(2,3) by (simp add: mirror_clean mirror_entry dom_mirror)
qed

theorem hydration_covers_every_pair_witness:
  "[''t1''] \<noteq> [] \<and> ''t1'' \<in> set [''t1''] \<and>
   (\<exists>st'. loadNotesForTasks_finish [''t1''] (Data (Some [row1]))
              (snd (loadNotesForTasks_begin [''t1''] dashboard0)) = Inr st'
      \<and> entry_of (notesByTask st') ''t1'' OWNER_A = Some default_entry
      \<and> entry_of (notesByTask st') ''t1'' OWNER_B = Some (entry_of_row row1)
      \<and> draft_entry_of (draftByTask st') ''t1'' OWNER_A = Some ''''
      \<and> draft_entry_of (draftByTask st') ''t1'' OWNER_B = Some ''En route'')"
proof -
  have ne: "[''t1''] \<noteq> []" by simp
  have lA: "last_row (rows_of (Some [row1])) ''t1'' OWNER_A = None"
    by (simp add: rows_of_def last_row_def row1_def)
  have lB: "last_row (rows_of (Some [row1])) ''t1'' OWNER_B = Some row1"
    by (simp add: rows_of_def last_row_def row1_def)
  have nB: "e_note (entry_of_row row1) = ''En route''"
    by (simp add: entry_of_row_def row1_def)
  from hydration_covers_every_pair [OF ne, of dashboard0 "Some [row1]"]
  obtain st' where
    f: "loadNotesForTasks_finish [''t1''] (Data (Some [row1]))
              (snd (loadNotesForTasks_begin [''t1''] dashboard0)) = Inr st'"
    and e: "\<forall>t \<in> set [''t1'']. \<forall>ow.
             entry_of (notesByTask st') t ow =
               Some (case last_row (rows_of (Some [row1])) t ow of
                       None \<Rightarrow> default_entry | Some r \<Rightarrow> entry_of_row r)
           \<and> draft_entry_of (draftByTask st') t ow =
               map_option e_note (entry_of (notesByTask st') t ow)"
    by blast
  from e have eA: "entry_of (notesByTask st') ''t1'' OWNER_A = Some default_entry"
    and dA: "draft_entry_of (draftByTask st') ''t1'' OWNER_A = Some ''''"
    using lA by (simp_all add: default_entry_def)
  from e have eB: "entry_of (notesByTask st') ''t1'' OWNER_B = Some (entry_of_row row1)"
    and dB: "draft_entry_of (draftByTask st') ''t1'' OWNER_B = Some ''En route''"
    using lB nB by simp_all
  show ?thesis using f eA eB dA dB by simp
qed

text \<open>
  Claim C10. Hydration with no visible task id issues no fetch and replaces both caches
  by empty maps, so neither cache has an entry for any task id and owner afterwards.
\<close>

theorem hydration_empty_resets:
  "loadNotesForTasks_begin [] st =
     (None, st\<lparr>errorMsg := '''', notesByTask := Map.empty, draftByTask := Map.empty\<rparr>)
   \<and> entry_of (notesByTask (snd (loadNotesForTasks_begin [] st))) t ow = None
   \<and> draft_entry_of (draftByTask (snd (loadNotesForTasks_begin [] st))) t ow = None"
  by (simp add: loadNotesForTasks_begin_def entry_of_def draft_entry_of_def)

section \<open>Adding a task and the scope of pushed note changes\<close>

text \<open>
  Claim C9. \<open>addTask\<close> issues no insert and leaves the state as it is when no week is
  selected (\<open>!selectedWeek\<close>: \<open>null\<close>, or the week number 0) or the description trims to
  the empty string. Otherwise it issues one insert with the selected week, the chosen
  owner, the trimmed description and status \<open>Pending\<close>, and neither the call nor its
  completion changes the local task list.
\<close>

theorem addTask_guard_and_insert:
  "((selectedWeek st = None \<or> selectedWeek st = Some 0 \<or> trim (newDesc st) = [])
      \<longrightarrow> addTask_begin st = (None, st))
   \<and> (\<forall>w. selectedWeek st = Some w \<and> w \<noteq> 0 \<and> trim (newDesc st) \<noteq> [] \<longrightarrow>
         addTask_begin st =
           (Some \<lparr>i_week_number = w, i_owner = newOwner st,
                  i_description = trim (newDesc st), i_status = Pending\<rparr>,
            st\<lparr>errorMsg := ''''\<rparr>)
         \<and> tasks (snd (addTask_begin st)) = tasks st
         \<and> tasks (addTask_finish err (snd (addTask_begin st))) = tasks st)"
  by (auto simp: addTask_begin_def addTask_finish_def Let_def split: option.splits)

lemma trim_call_clinic: "trim '' Call clinic '' = ''Call clinic''"
  by (simp add: trim_def is_ws_def)

theorem addTask_guard_and_insert_witness:
  "selectedWeek dashboard0 = None \<and> addTask_begin dashboard0 = (None, dashboard0)
   \<and> selectedWeek typing1 = Some 3 \<and> (3::int) \<noteq> 0 \<and> trim (newDesc typing1) \<noteq> []
   \<and> fst (addTask_begin typing1) =
        Some \<lparr>i_week_number = 3, i_owner = OWNER_A,
               i_description = ''Call clinic'', i_status = Pending\<rparr>
   \<and> tasks (addTask_finish None (snd (addTask_begin typing1))) = []"
proof -
  have a: "selectedWeek dashboard0 = None" by (simp add: dashboard0_def)
  have b: "selectedWeek typing1 = Some 3" "trim (newDesc typing1) = ''Call clinic''"
    "newOwner typing1 = OWNER_A" "tasks typing1 = []"
    by (simp_all add: typing1_def dashboard0_def trim_call_clinic)
  show ?thesis
    using addTask_guard_and_insert [of dashboard0 None] addTask_guard_and_insert [of typing1 None] a b
    by (simp add: addTask_finish_def)
qed

text \<open>
  Claim C8. The handler of a pushed note change starts a rehydration (of all visible task
  ids) exactly when the task id of the event, read from the new row or else from the old
  row, is a non-empty string that belongs to the visible set; an event whose task id is
  missing or outside the visible set starts nothing and leaves the state unchanged.
\<close>

theorem notes_event_scope:
  "(fst (notesChannel_handler p st) \<noteq> None)
      = (\<exists>t. event_task_id p = Some t \<and> t \<noteq> [] \<and> t \<in> set (taskIdSetRef st))
   \<and> ((\<exists>t. event_task_id p = Some t \<and> t \<noteq> [] \<and> t \<in> set (taskIdSetRef st)) \<longrightarrow>
        notesChannel_handler p st = (Some (taskIdSetRef st), st\<lparr>errorMsg := ''''\<rparr>))
   \<and> (\<not> (\<exists>t. event_task_id p = Some t \<and> t \<in> set (taskIdSetRef st)) \<longrightarrow>
        notesChannel_handler p st = (None, st))"
  by (auto simp: notesChannel_handler_def loadNotesForTasks_begin_def Let_def split: option.splits)

theorem notes_event_scope_witness:
  "notesChannel_handler \<lparr>ev_new_task_id = Some ''t2'', ev_old_task_id = None\<rparr> visible1
      = (Some [''t1'', ''t2''], visible1\<lparr>errorMsg := ''''\<rparr>)
   \<and> notesChannel_handler \<lparr>ev_new_task_id = None, ev_old_task_id = Some ''t9''\<rparr> visible1
      = (None, visible1)"
proof -
  have a: "\<exists>t. event_task_id \<lparr>ev_new_task_id = Some ''t2'', ev_old_task_id = None\<rparr> = Some t
             \<and> t \<noteq> [] \<and> t \<in> set (taskIdSetRef visible1)"
    by (simp add: event_task_id_def visible1_def)
  have b: "\<not> (\<exists>t. event_task_id \<lparr>ev_new_task_id = None, ev_old_task_id = Some ''t9''\<rparr> = Some t
             \<and> t \<in> set (taskIdSetRef visible1))"
    by (simp add: event_task_id_def visible1_def)
  have c: "taskIdSetRef visible1 = [''t1'', ''t2'']" by (simp add: visible1_def)
  show ?thesis
    using notes_event_scope [of "\<lparr>ev_new_task_id = Some ''t2'', ev_old_task_id = None\<rparr>" visible1]
          notes_event_scope [of "\<lparr>ev_new_task_id = None, ev_old_task_id = Some ''t9''\<rparr>" visible1]
          a b c
    by simp
qed

section \<open>Keys and mutual exclusion of saves\<close>

lemma makeKey_inj: "makeKey t ow = makeKey t' ow' \<Longrightarrow> t = t' \<and> ow = ow'"
proof -
  assume a: "makeKey t ow = makeKey t' ow'"
  then have r: "rev (owner_str ow) @ rev ''::'' @ rev t = rev (owner_str ow') @ rev ''::'' @ rev t'"
    by (drule_tac f=rev in arg_cong) (simp add: makeKey_def)
  have o: "ow = ow'"
    using r by (cases ow; cases ow') (simp_all add: owner_str_def)
  with a show ?thesis by (simp add: makeKey_def)
qed

lemma makeKey_eq_iff: "(makeKey t ow = makeKey t' ow') = (t = t' \<and> ow = ow')"
  using makeKey_inj by blast

lemma issue_saveNote_excl:
  "excl w \<Longrightarrow> excl (issue (saveNote_begin D t ow ov (w_dash w)) w)"
  by (auto simp: excl_def issue_def saveNote_begin_def Let_def req_key_def)

lemma fire_excl: "excl w \<Longrightarrow> excl (fire tm w)"
  unfolding fire_def timerCallback_def Let_def
  by (auto simp: issue_saveNote_excl) (simp add: excl_def issue_def)

lemma fold_fire_excl: "excl w \<Longrightarrow> excl (fold fire tms w)"
  by (induction tms arbitrary: w) (simp_all add: fire_excl)

lemma advance_excl: "excl w \<Longrightarrow> excl (advance d w)"
  unfolding advance_def Let_def by (rule fold_fire_excl) (simp add: excl_def)

lemma timers_only_refl: "timers_only w w"
  unfolding timers_only_def
  by (rule exI[of _ "w_timeouts w"], rule exI[of _ "w_nextTimerId w"],
      rule exI[of _ "autosaveTimersRef (w_dash w)"]) simp

lemma timers_only_trans: "timers_only w w1 \<Longrightarrow> timers_only w1 w2 \<Longrightarrow> timers_only w w2"
  unfolding timers_only_def by (elim exE) (simp, intro exI, rule refl)

lemma timers_onlyD:
  assumes "timers_only w w'"
  shows "w_pending w' = w_pending w" "w_writes w' = w_writes w" "w_clock w' = w_clock w"
    "w_depsChanged w' = w_depsChanged w"
    "tasks (w_dash w') = tasks (w_dash w)"
    "notesByTask (w_dash w') = notesByTask (w_dash w)"
    "draftByTask (w_dash w') = draftByTask (w_dash w)"
    "autosaveInFlightRef (w_dash w') = autosaveInFlightRef (w_dash w)"
    "savingKeys (w_dash w') = savingKeys (w_dash w)"
  using assms unfolding timers_only_def by auto

lemma clearTimeout_timers_only: "timers_only w (clearTimeout i w)"
  unfolding timers_only_def clearTimeout_def
  by (rule exI[of _ "filter (\<lambda>tm. tm_id tm \<noteq> i) (w_timeouts w)"], rule exI[of _ "w_nextTimerId w"],
      rule exI[of _ "autosaveTimersRef (w_dash w)"]) simp

lemma arm_timer_timers_only: "timers_only w (arm_timer D N t ow w)"
proof (cases "draft_of D t ow = saved_of N t ow")
  case True
  then show ?thesis by (simp add: arm_timer_def timers_only_refl)
next
  case False
  define w1 where "w1 = (case map_of (autosaveTimersRef (w_dash w)) (makeKey t ow) of
                     None \<Rightarrow> w
                   | Some i \<Rightarrow> if i = 0 then w else clearTimeout i w)"
  have 1: "timers_only w w1"
    unfolding w1_def by (auto simp: timers_only_refl clearTimeout_timers_only split: option.splits)
  have 2: "timers_only w1 (arm_timer D N t ow w)"
    using False unfolding arm_timer_def w1_def[symmetric] Let_def setTimeout_def timers_only_def
    by auto
  from 1 2 show ?thesis by (rule timers_only_trans)
qed

lemma autosave_effect_timers_only: "timers_only w (autosave_effect w)"
proof -
  have a: "\<And>D N t w. timers_only w (fold (\<lambda>ow w2. arm_timer D N t ow w2) ALL_OWNERS w)"
    unfolding ALL_OWNERS_def
    by (auto intro: timers_only_trans arm_timer_timers_only)
  have b: "\<And>D N w. timers_only w (fold (\<lambda>task w1. fold (\<lambda>ow w2. arm_timer D N (t_id task) ow w2) ALL_OWNERS w1) ts w)" for ts
  proof (induction ts)
    case Nil
    then show ?case by (simp add: timers_only_refl)
  next
    case (Cons a ts)
    show ?case using a Cons timers_only_trans by (simp, blast)
  qed
  show ?thesis unfolding autosave_effect_def Let_def by (rule b)
qed

lemma autosave_cleanup_eq:
  "autosave_cleanup w =
     w\<lparr>w_timeouts := filter (\<lambda>tm. tm_id tm \<notin> snd ` set (autosaveTimersRef (w_dash w))) (w_timeouts w)\<rparr>"
proof -
  have "\<And>w. fold (\<lambda>(key, i) w1. clearTimeout i w1) kvs w
      = w\<lparr>w_timeouts := filter (\<lambda>tm. tm_id tm \<notin> snd ` set kvs) (w_timeouts w)\<rparr>" for kvs
  proof (induction kvs)
    case Nil
    then show ?case by simp
  next
    case (Cons kv kvs)
    show ?case
      by (cases kv) (simp add: Cons, simp add: clearTimeout_def conj_commute)
  qed
  then show ?thesis unfolding autosave_cleanup_def by simp
qed

lemma autosave_cleanup_timers_only: "timers_only w (autosave_cleanup w)"
  unfolding autosave_cleanup_eq timers_only_def
  by (rule exI[of _ "filter (\<lambda>tm. tm_id tm \<notin> snd ` set (autosaveTimersRef (w_dash w))) (w_timeouts w)"],
      rule exI[of _ "w_nextTimerId w"], rule exI[of _ "autosaveTimersRef (w_dash w)"]) simp

lemma commit_frame:
  "w_pending (commit w) = w_pending w" "w_writes (commit w) = w_writes w"
  "w_clock (commit w) = w_clock w"
  "tasks (w_dash (commit w)) = tasks (w_dash w)"
  "notesByTask (w_dash (commit w)) = notesByTask (w_dash w)"
  "draftByTask (w_dash (commit w)) = draftByTask (w_dash w)"
  "autosaveInFlightRef (w_dash (commit w)) = autosaveInFlightRef (w_dash w)"
  "savingKeys (w_dash (commit w)) = savingKeys (w_dash w)"
  using timers_onlyD[OF timers_only_trans[OF autosave_cleanup_timers_only autosave_effect_timers_only], of w]
  by (simp_all add: commit_def)

lemma commit_excl: "excl w \<Longrightarrow> excl (commit w)"
  by (simp add: excl_def commit_frame)

lemma nth_removed_key:
  assumes "distinct (map f xs)" "n < length xs"
  shows "f (xs ! n) \<notin> f ` set (take n xs @ drop (Suc n) xs)"
proof -
  have "xs = take n xs @ (xs ! n) # drop (Suc n) xs"
    using assms(2) by (simp add: id_take_nth_drop)
  then have "distinct (map f (take n xs @ (xs ! n) # drop (Suc n) xs))"
    using assms(1) by simp
  then show ?thesis by auto
qed

lemma distinct_remove_nth:
  assumes "distinct (map f xs)"
  shows "distinct (map f (take n xs @ drop (Suc n) xs))"
proof (cases "n < length xs")
  case True
  have "xs = take n xs @ (xs ! n) # drop (Suc n) xs"
    using True by (simp add: id_take_nth_drop)
  then have "distinct (map f (take n xs @ (xs ! n) # drop (Suc n) xs))"
    using assms by simp
  then show ?thesis by auto
next
  case False
  then show ?thesis using assms by simp
qed

lemma step_excl:
  assumes e: "excl w"
  shows "excl (step ev w)"
proof (cases ev)
  case (Edit t ow v)
  then show ?thesis using e Edit by (simp add: excl_def edit_draft_def)
next
  case Commit
  then show ?thesis using e Commit by (simp add: commit_excl)
next
  case (Advance d)
  then show ?thesis using e Advance by (simp add: advance_excl)
next
  case (ClickSave t ow)
  then show ?thesis using e ClickSave by (simp add: issue_saveNote_excl)
next
  case (UpsertDone n err now)
  show ?thesis
  proof (cases "n < length (w_pending w)")
    case False
    then show ?thesis using e UpsertDone by simp
  next
    case True
    define P' where "P' = take n (w_pending w) @ drop (Suc n) (w_pending w)"
    define k where "k = req_key (w_pending w ! n)"
    have k: "k \<notin> req_key ` set P'"
      using e True nth_removed_key[of req_key "w_pending w" n] by (simp add: excl_def P'_def k_def)
    have d: "distinct (map req_key P')"
      using e distinct_remove_nth[of req_key "w_pending w" n] by (simp add: excl_def P'_def)
    have s: "set P' \<subseteq> set (w_pending w)"
      by (auto simp: P'_def dest: in_set_takeD in_set_dropD)
    have i: "autosaveInFlightRef (saveNote_finish t ow nt err now st)
              = autosaveInFlightRef st - {makeKey t ow}" for t ow nt st
      by (simp add: saveNote_finish_def Let_def split: option.splits)
    have p: "w_pending (step ev w) = P'"
      using True UpsertDone by (simp add: Let_def P'_def)
    have f: "autosaveInFlightRef (w_dash (step ev w)) = autosaveInFlightRef (w_dash w) - {k}"
      using True UpsertDone by (simp add: Let_def i k_def req_key_def)
    have "req_key ` set P' \<subseteq> autosaveInFlightRef (w_dash w) - {k}"
      using e k s by (auto simp: excl_def)
    then show ?thesis
      unfolding excl_def p f using d by simp
  qed
next
  case (TasksLoaded resp)
  then show ?thesis using e TasksLoaded
    by (auto simp: excl_def loadTasks_finish_def loadNotesForTasks_begin_def Let_def split: response.splits)
next
  case (NotesLoaded ids resp)
  then show ?thesis using e NotesLoaded
    by (auto simp: excl_def loadNotesForTasks_finish_def Let_def split: response.splits sum.splits prod.splits)
qed

lemma run_excl: "excl w \<Longrightarrow> excl (run evs w)"
  unfolding run_def by (induction evs arbitrary: w) (simp_all add: step_excl)

lemma excl_world0: "excl world0"
  by (simp add: excl_def world0_def)

section \<open>The bookkeeping of the debounce timers\<close>

lemma map_of_obj_set: "map_of (obj_set k v kvs) = (map_of kvs)(k \<mapsto> v)"
  by (induction kvs) (auto simp: fun_eq_iff)

lemma tracked_clear: "tracked w \<Longrightarrow> tracked (clearTimeout i w)"
  by (auto simp: tracked_def clearTimeout_def distinct_map_filter)

lemma has_timer_key: "has_timer t ow w = (\<exists>tm \<in> set (w_timeouts w). tm_key tm = makeKey t ow)"
  by (auto simp: has_timer_def tm_key_def makeKey_eq_iff)

text \<open>After the existing timer of a key is cleared no pending timeout has that key.\<close>

lemma clear_existing_no_timer:
  fixes key :: string and w :: world
  assumes "tracked w"
  defines "w1 \<equiv> (case map_of (autosaveTimersRef (w_dash w)) key of
                     None \<Rightarrow> w
                   | Some i \<Rightarrow> if i = 0 then w else clearTimeout i w)"
  shows "tracked w1" "\<forall>tm \<in> set (w_timeouts w1). tm_key tm \<noteq> key"
    "w_nextTimerId w1 = w_nextTimerId w" "w_dash w1 = w_dash w" "w_clock w1 = w_clock w"
    "set (w_timeouts w1) \<subseteq> set (w_timeouts w)"
    "\<forall>tm \<in> set (w_timeouts w). tm_key tm \<noteq> key \<longrightarrow> tm \<in> set (w_timeouts w1)"
proof -
  show "tracked w1" using assms(1) unfolding w1_def
    by (auto simp: tracked_clear split: option.splits)
  show "w_nextTimerId w1 = w_nextTimerId w" "w_dash w1 = w_dash w" "w_clock w1 = w_clock w"
    "set (w_timeouts w1) \<subseteq> set (w_timeouts w)"
    unfolding w1_def by (auto simp: clearTimeout_def split: option.splits)
  show "\<forall>tm \<in> set (w_timeouts w1). tm_key tm \<noteq> key"
  proof
    fix tm assume a: "tm \<in> set (w_timeouts w1)"
    have m: "tm \<in> set (w_timeouts w)"
      using a unfolding w1_def by (auto simp: clearTimeout_def split: option.splits if_splits)
    show "tm_key tm \<noteq> key"
    proof
      assume k: "tm_key tm = key"
      from assms(1) m have r: "map_of (autosaveTimersRef (w_dash w)) key = Some (tm_id tm)" "0 < tm_id tm"
        using k unfolding tracked_def by auto
      then have "w1 = clearTimeout (tm_id tm) w" unfolding w1_def by simp
      with a show False by (simp add: clearTimeout_def)
    qed
  qed
  show "\<forall>tm \<in> set (w_timeouts w). tm_key tm \<noteq> key \<longrightarrow> tm \<in> set (w_timeouts w1)"
  proof (intro ballI impI)
    fix tm assume m: "tm \<in> set (w_timeouts w)" and k: "tm_key tm \<noteq> key"
    from assms(1) m k have "map_of (autosaveTimersRef (w_dash w)) key \<noteq> Some (tm_id tm)"
      unfolding tracked_def by auto
    then show "tm \<in> set (w_timeouts w1)"
      using m unfolding w1_def by (auto simp: clearTimeout_def split: option.splits)
  qed
qed

lemma arm_timer_dirty_eq:
  assumes "dirty D N t ow"
  shows "arm_timer D N t ow w =
     (let w1 = (case map_of (autosaveTimersRef (w_dash w)) (makeKey t ow) of
                     None \<Rightarrow> w
                   | Some i \<Rightarrow> if i = 0 then w else clearTimeout i w)
      in w1\<lparr>w_timeouts := w_timeouts w1 @
              [\<lparr>tm_id = w_nextTimerId w1, tm_deadline = w_clock w1 + delayMs,
                tm_cb = \<lparr>c_taskId = t, c_owner = ow, c_draftByTask = D, c_notesByTask = N\<rparr>\<rparr>],
            w_nextTimerId := w_nextTimerId w1 + 1,
            w_dash := (w_dash w1)\<lparr>autosaveTimersRef :=
                  obj_set (makeKey t ow) (w_nextTimerId w1) (autosaveTimersRef (w_dash w1))\<rparr>\<rparr>)"
  using assms by (simp add: arm_timer_def dirty_def Let_def setTimeout_def)

lemma arm_timer_clean_eq: "\<not> dirty D N t ow \<Longrightarrow> arm_timer D N t ow w = w"
  by (simp add: arm_timer_def dirty_def)

lemma arm_timer_post:
  assumes tr: "tracked w" and ar: "armed (w_clock w) D N w"
  shows "tracked (arm_timer D N t ow w)"
    and "armed (w_clock w) D N (arm_timer D N t ow w)"
    and "w_clock (arm_timer D N t ow w) = w_clock w"
    and "has_timer t' ow' w \<Longrightarrow> has_timer t' ow' (arm_timer D N t ow w)"
    and "dirty D N t ow \<Longrightarrow> has_timer t ow (arm_timer D N t ow w)"
proof -
  define key where "key = makeKey t ow"
  define w1 where "w1 = (case map_of (autosaveTimersRef (w_dash w)) key of
                     None \<Rightarrow> w
                   | Some i \<Rightarrow> if i = 0 then w else clearTimeout i w)"
  define n where "n = w_nextTimerId w"
  define tm0 where "tm0 = \<lparr>tm_id = n, tm_deadline = w_clock w + delayMs,
                tm_cb = \<lparr>c_taskId = t, c_owner = ow, c_draftByTask = D, c_notesByTask = N\<rparr>\<rparr>"
  note c = clear_existing_no_timer[OF tr, of key, folded w1_def]
  have eq: "dirty D N t ow \<Longrightarrow> arm_timer D N t ow w =
      w1\<lparr>w_timeouts := w_timeouts w1 @ [tm0], w_nextTimerId := n + 1,
         w_dash := (w_dash w)\<lparr>autosaveTimersRef := obj_set key n (autosaveTimersRef (w_dash w))\<rparr>\<rparr>"
    using c(3,4,5) by (simp add: arm_timer_dirty_eq key_def[symmetric] w1_def[symmetric] Let_def tm0_def n_def)
  have k0: "tm_key tm0 = key" by (simp add: tm_key_def tm0_def key_def)
  show "w_clock (arm_timer D N t ow w) = w_clock w"
    using timers_onlyD(3)[OF arm_timer_timers_only] .
  show "armed (w_clock w) D N (arm_timer D N t ow w)"
  proof (cases "dirty D N t ow")
    case False then show ?thesis using ar by (simp add: arm_timer_clean_eq)
  next
    case True
    show ?thesis using ar c(6) True unfolding eq[OF True] armed_def
      by (auto simp: tm0_def)
  qed
  show "tracked (arm_timer D N t ow w)"
  proof (cases "dirty D N t ow")
    case False then show ?thesis using tr by (simp add: arm_timer_clean_eq)
  next
    case True
    have t1: "tracked w1" by (rule c(1))
    have n0: "0 < n" using tr by (simp add: tracked_def n_def)
    have ids: "\<forall>tm \<in> set (w_timeouts w1). tm_id tm < n"
      using t1 c(3) by (simp add: tracked_def n_def)
    have refs: "\<forall>k i. map_of (autosaveTimersRef (w_dash w)) k = Some i \<longrightarrow> i < n"
      using tr by (simp add: tracked_def n_def)
    have a: "distinct (map tm_id (w_timeouts w1 @ [tm0]))"
      using t1 ids by (auto simp: tracked_def tm0_def)
    have b: "\<forall>tm \<in> set (w_timeouts w1 @ [tm0]). 0 < tm_id tm \<and> tm_id tm < n + 1
        \<and> (\<forall>k. (((map_of (autosaveTimersRef (w_dash w)))(key \<mapsto> n)) k = Some (tm_id tm)) = (k = tm_key tm))"
    proof
      fix tm assume m: "tm \<in> set (w_timeouts w1 @ [tm0])"
      show "0 < tm_id tm \<and> tm_id tm < n + 1
        \<and> (\<forall>k. (((map_of (autosaveTimersRef (w_dash w)))(key \<mapsto> n)) k = Some (tm_id tm)) = (k = tm_key tm))"
      proof (cases "tm = tm0")
        case True
        have "tm_id tm0 = n" by (simp add: tm0_def)
        then show ?thesis using True n0 k0 refs by auto
      next
        case False
        then have m1: "tm \<in> set (w_timeouts w1)" using m by simp
        have i: "0 < tm_id tm" "tm_id tm < n" "tm_key tm \<noteq> key"
          "\<forall>k. (map_of (autosaveTimersRef (w_dash w)) k = Some (tm_id tm)) = (k = tm_key tm)"
          using t1 m1 c(2,3,4) by (auto simp: tracked_def n_def)
        then show ?thesis by auto
      qed
    qed
    have d: "\<forall>k i. ((map_of (autosaveTimersRef (w_dash w)))(key \<mapsto> n)) k = Some i \<longrightarrow> i < n + 1"
      using refs by (auto simp: less_Suc_eq)
    show ?thesis
      unfolding eq[OF True] tracked_def using a b d n0
      by (simp add: map_of_obj_set)
  qed
  show "has_timer t' ow' (arm_timer D N t ow w)" if h: "has_timer t' ow' w"
  proof (cases "dirty D N t ow")
    case False then show ?thesis using h by (simp add: arm_timer_clean_eq)
  next
    case True
    from h obtain tm where m: "tm \<in> set (w_timeouts w)" and k: "tm_key tm = makeKey t' ow'"
      by (auto simp: has_timer_key)
    show ?thesis
    proof (cases "makeKey t' ow' = key")
      case True2: True
      show ?thesis unfolding has_timer_key eq[OF True] using k0 True2 by auto
    next
      case False
      then have "tm \<in> set (w_timeouts w1)" using c(7) m k by auto
      then show ?thesis unfolding has_timer_key eq[OF True] using k by auto
    qed
  qed
  show "has_timer t ow (arm_timer D N t ow w)" if d: "dirty D N t ow"
    unfolding has_timer_key eq[OF d] using k0 by (auto simp: key_def)
qed

lemma owners_post:
  fixes t :: string
  assumes tr: "tracked w" and ar: "armed (w_clock w) D N w"
  defines "w' \<equiv> fold (\<lambda>ow w2. arm_timer D N t ow w2) ALL_OWNERS w"
  shows "tracked w'" "armed (w_clock w) D N w'" "w_clock w' = w_clock w"
    "has_timer t' ow' w \<Longrightarrow> has_timer t' ow' w'"
    "dirty D N t ow \<Longrightarrow> has_timer t ow w'"
proof -
  define wa where "wa = arm_timer D N t OWNER_A w"
  have w': "w' = arm_timer D N t OWNER_B wa"
    by (simp add: w'_def wa_def ALL_OWNERS_def)
  note a = arm_timer_post[OF tr ar, where t=t and ow=OWNER_A, folded wa_def]
  have ara: "armed (w_clock wa) D N wa" using a(2,3) by simp
  note b = arm_timer_post[OF a(1) ara, where t=t and ow=OWNER_B, folded w']
  show "tracked w'" by (rule b(1))
  show "armed (w_clock w) D N w'" using b(2) a(3) by simp
  show "w_clock w' = w_clock w" using b(3) a(3) by simp
  show "has_timer t' ow' w'" if "has_timer t' ow' w" using that a(4) b(4) by blast
  show "has_timer t ow w'" if "dirty D N t ow"
    using that a(5) b(4) b(5) by (cases ow) auto
qed

lemma tasks_post:
  fixes ts :: "TaskRow list"
  assumes "tracked w" and "armed (w_clock w) D N w"
  defines "w' \<equiv> fold (\<lambda>task w1. fold (\<lambda>ow w2. arm_timer D N (t_id task) ow w2) ALL_OWNERS w1) ts w"
  shows "tracked w' \<and> armed (w_clock w) D N w' \<and> w_clock w' = w_clock w
    \<and> (\<forall>t' ow'. has_timer t' ow' w \<longrightarrow> has_timer t' ow' w')
    \<and> (\<forall>task \<in> set ts. \<forall>ow. dirty D N (t_id task) ow \<longrightarrow> has_timer (t_id task) ow w')"
  using assms(1,2) unfolding w'_def
proof (induction ts arbitrary: w)
  case Nil
  then show ?case by simp
next
  case (Cons task ts)
  define w1 where "w1 = fold (\<lambda>ow w2. arm_timer D N (t_id task) ow w2) ALL_OWNERS w"
  note o = owners_post[OF Cons.prems, where t="t_id task", folded w1_def]
  have ar1: "armed (w_clock w1) D N w1" using o(2,3) by simp
  note ih = Cons.IH[OF o(1) ar1]
  show ?case
    using ih o(3,4,5) by (simp add: w1_def[symmetric])
qed

lemma cleanup_post:
  assumes "tracked w"
  shows "w_timeouts (autosave_cleanup w) = []" "tracked (autosave_cleanup w)"
    "w_dash (autosave_cleanup w) = w_dash w" "w_clock (autosave_cleanup w) = w_clock w"
proof -
  have "\<forall>tm \<in> set (w_timeouts w). tm_id tm \<in> snd ` set (autosaveTimersRef (w_dash w))"
  proof
    fix tm assume "tm \<in> set (w_timeouts w)"
    with assms have "map_of (autosaveTimersRef (w_dash w)) (tm_key tm) = Some (tm_id tm)"
      by (simp add: tracked_def)
    then have "(tm_key tm, tm_id tm) \<in> set (autosaveTimersRef (w_dash w))"
      by (rule map_of_SomeD)
    then show "tm_id tm \<in> snd ` set (autosaveTimersRef (w_dash w))" by force
  qed
  then show e: "w_timeouts (autosave_cleanup w) = []"
    by (simp add: autosave_cleanup_eq filter_empty_conv)
  show "w_dash (autosave_cleanup w) = w_dash w" "w_clock (autosave_cleanup w) = w_clock w"
    by (simp_all add: autosave_cleanup_eq)
  show "tracked (autosave_cleanup w)"
    using assms by (auto simp: autosave_cleanup_eq tracked_def distinct_map_filter)
qed

lemma commit_post:
  assumes tr: "tracked w" and ch: "w_depsChanged w"
  shows "tracked (commit w)"
    and "armed (w_clock w) (draftByTask (w_dash w)) (notesByTask (w_dash w)) (commit w)"
    and "\<And>task ow. task \<in> set (tasks (w_dash w))
          \<Longrightarrow> dirty (draftByTask (w_dash w)) (notesByTask (w_dash w)) (t_id task) ow
          \<Longrightarrow> has_timer (t_id task) ow (commit w)"
proof -
  define wc where "wc = autosave_cleanup w"
  note c = cleanup_post[OF tr, folded wc_def]
  have ar: "armed (w_clock wc) (draftByTask (w_dash w)) (notesByTask (w_dash w)) wc"
    using c(1) by (simp add: armed_def)
  note t = tasks_post[OF c(2) ar, of "tasks (w_dash w)"]
  have e: "autosave_effect wc = fold (\<lambda>task w1. fold (\<lambda>ow w2. arm_timer (draftByTask (w_dash w))
       (notesByTask (w_dash w)) (t_id task) ow w2) ALL_OWNERS w1) (tasks (w_dash w)) wc"
    by (simp add: autosave_effect_def c(3))
  have cm: "commit w = (autosave_effect wc)\<lparr>w_depsChanged := False,
        w_renderedDrafts := draftByTask (w_dash w)\<rparr>"
    using ch by (simp add: commit_def wc_def)
  show "tracked (commit w)" using t unfolding cm e[symmetric] by (simp add: tracked_def)
  show "armed (w_clock w) (draftByTask (w_dash w)) (notesByTask (w_dash w)) (commit w)"
    using t c(4) unfolding cm e[symmetric] by (simp add: armed_def)
  show "has_timer (t_id task) ow (commit w)"
    if "task \<in> set (tasks (w_dash w))"
      "dirty (draftByTask (w_dash w)) (notesByTask (w_dash w)) (t_id task) ow" for task ow
    using t that unfolding cm e[symmetric] by (simp add: has_timer_def)
qed

lemma commit_tracked: "tracked w \<Longrightarrow> tracked (commit w)"
  by (cases "w_depsChanged w") (simp_all add: commit_post(1), simp add: commit_def)

subsection \<open>Firing\<close>

lemma issue_frame:
  "w_timeouts (issue res w) = w_timeouts w" "w_nextTimerId (issue res w) = w_nextTimerId w"
  "w_clock (issue res w) = w_clock w" "w_dash (issue res w) = snd res"
  "w_depsChanged (issue res w) = w_depsChanged w"
  by (simp_all add: issue_def split: option.splits)

lemma saveNote_begin_frame:
  "autosaveTimersRef (snd (saveNote_begin D t ow ov st)) = autosaveTimersRef st"
  "tasks (snd (saveNote_begin D t ow ov st)) = tasks st"
  "notesByTask (snd (saveNote_begin D t ow ov st)) = notesByTask st"
  "draftByTask (snd (saveNote_begin D t ow ov st)) = draftByTask st"
  by (simp_all add: saveNote_begin_def Let_def)

lemma timerCallback_frame:
  "autosaveTimersRef (snd (timerCallback cl st)) = autosaveTimersRef st"
  "tasks (snd (timerCallback cl st)) = tasks st"
  "notesByTask (snd (timerCallback cl st)) = notesByTask st"
  "draftByTask (snd (timerCallback cl st)) = draftByTask st"
  by (simp_all add: timerCallback_def Let_def saveNote_begin_frame)

lemma fire_frame:
  "w_timeouts (fire tm w) = w_timeouts w" "w_nextTimerId (fire tm w) = w_nextTimerId w"
  "w_clock (fire tm w) = w_clock w" "w_depsChanged (fire tm w) = w_depsChanged w"
  "autosaveTimersRef (w_dash (fire tm w)) = autosaveTimersRef (w_dash w)"
  "tasks (w_dash (fire tm w)) = tasks (w_dash w)"
  "notesByTask (w_dash (fire tm w)) = notesByTask (w_dash w)"
  "draftByTask (w_dash (fire tm w)) = draftByTask (w_dash w)"
  by (simp_all add: fire_def issue_frame timerCallback_frame)

lemma fold_fire_frame:
  "w_timeouts (fold fire tms w) = w_timeouts w \<and> w_nextTimerId (fold fire tms w) = w_nextTimerId w
   \<and> w_clock (fold fire tms w) = w_clock w \<and> w_depsChanged (fold fire tms w) = w_depsChanged w
   \<and> autosaveTimersRef (w_dash (fold fire tms w)) = autosaveTimersRef (w_dash w)
   \<and> tasks (w_dash (fold fire tms w)) = tasks (w_dash w)
   \<and> notesByTask (w_dash (fold fire tms w)) = notesByTask (w_dash w)
   \<and> draftByTask (w_dash (fold fire tms w)) = draftByTask (w_dash w)"
  by (induction tms arbitrary: w) (simp_all add: fire_frame)

lemma advance_tracked: "tracked w \<Longrightarrow> tracked (advance d w)"
  unfolding advance_def Let_def tracked_def
  by (simp add: fold_fire_frame distinct_map_filter)

lemma tracked_dash_cong:
  "w_timeouts w' = w_timeouts w \<Longrightarrow> w_nextTimerId w' = w_nextTimerId w
   \<Longrightarrow> autosaveTimersRef (w_dash w') = autosaveTimersRef (w_dash w)
   \<Longrightarrow> tracked w' = tracked w"
  by (simp add: tracked_def)

lemma step_tracked:
  assumes t: "tracked w"
  shows "tracked (step ev w)"
proof (cases ev)
  case (Edit ta ow v)
  have "tracked (step ev w) = tracked w"
    using Edit by (intro tracked_dash_cong) (simp_all add: edit_draft_def)
  then show ?thesis using t by simp
next
  case Commit
  then show ?thesis using t by (simp add: commit_tracked)
next
  case (Advance d)
  then show ?thesis using t by (simp add: advance_tracked)
next
  case (ClickSave ta ow)
  have "tracked (step ev w) = tracked w"
    using ClickSave by (intro tracked_dash_cong) (simp_all add: issue_frame saveNote_begin_frame)
  then show ?thesis using t by simp
next
  case (UpsertDone n err now)
  have "tracked (step ev w) = tracked w"
    using UpsertDone
    by (intro tracked_dash_cong) (simp_all add: Let_def saveNote_finish_def split: option.splits)
  then show ?thesis using t by simp
next
  case (TasksLoaded resp)
  have "tracked (step ev w) = tracked w"
    using TasksLoaded
    by (intro tracked_dash_cong)
       (simp_all add: loadTasks_finish_def loadNotesForTasks_begin_def Let_def split: response.splits)
  then show ?thesis using t by simp
next
  case (NotesLoaded ids resp)
  have "tracked (step ev w) = tracked w"
    using NotesLoaded
    by (intro tracked_dash_cong)
       (auto simp: loadNotesForTasks_finish_def Let_def split: response.splits sum.splits prod.splits)
  then show ?thesis using t by simp
qed

lemma run_tracked: "tracked w \<Longrightarrow> tracked (run evs w)"
  unfolding run_def by (induction evs arbitrary: w) (simp_all add: step_tracked)

lemma tracked_world0: "tracked world0"
  by (simp add: tracked_def world0_def dashboard0_def)

lemma run_append: "run (xs @ ys) w = run ys (run xs w)"
  by (simp add: run_def)

lemma tracked_distinct_keys:
  assumes "tracked w"
  shows "distinct (map tm_key (w_timeouts w))"
proof -
  have d: "distinct (map tm_id (w_timeouts w))" using assms by (simp add: tracked_def)
  have "inj_on tm_key (set (w_timeouts w))"
  proof (rule inj_onI)
    fix a b assume a: "a \<in> set (w_timeouts w)" and b: "b \<in> set (w_timeouts w)"
      and k: "tm_key a = tm_key b"
    have "map_of (autosaveTimersRef (w_dash w)) (tm_key a) = Some (tm_id a)"
      "map_of (autosaveTimersRef (w_dash w)) (tm_key b) = Some (tm_id b)"
      using assms a b by (simp_all add: tracked_def)
    then have "tm_id a = tm_id b" using k by simp
    then show "a = b" using d a b by (meson distinct_map inj_onD)
  qed
  then show ?thesis using d by (simp add: distinct_map)
qed

lemma fire_writes:
  assumes "c_draftByTask (tm_cb tm) = D" "c_notesByTask (tm_cb tm) = N"
    "dirty D N (c_taskId (tm_cb tm)) (c_owner (tm_cb tm))"
  shows "writes_for t ow (fire tm w) = writes_for t ow w @
      (if c_taskId (tm_cb tm) = t \<and> c_owner (tm_cb tm) = ow
          \<and> makeKey t ow \<notin> autosaveInFlightRef (w_dash w)
       then [\<lparr>u_task_id = t, u_owner = ow, u_note = trim (draft_of D t ow)\<rparr>] else [])"
  using assms
  by (auto simp: fire_def timerCallback_def Let_def dirty_def saveNote_begin_def raw_of_def
      issue_def writes_for_def tm_key_def)

lemma fire_inflight:
  assumes "c_draftByTask (tm_cb tm) = D" "c_notesByTask (tm_cb tm) = N"
    "dirty D N (c_taskId (tm_cb tm)) (c_owner (tm_cb tm))"
  shows "autosaveInFlightRef (w_dash (fire tm w)) = insert (tm_key tm) (autosaveInFlightRef (w_dash w))"
  using assms
  by (auto simp: fire_def timerCallback_def Let_def dirty_def saveNote_begin_def raw_of_def
      issue_def writes_for_def tm_key_def)

lemma fold_fire_writes:
  assumes "distinct (map tm_key tms)"
    and "\<forall>tm \<in> set tms. c_draftByTask (tm_cb tm) = D \<and> c_notesByTask (tm_cb tm) = N
           \<and> dirty D N (c_taskId (tm_cb tm)) (c_owner (tm_cb tm))"
  shows "writes_for t ow (fold fire tms w) = writes_for t ow w @
      (if (\<exists>tm \<in> set tms. c_taskId (tm_cb tm) = t \<and> c_owner (tm_cb tm) = ow)
          \<and> makeKey t ow \<notin> autosaveInFlightRef (w_dash w)
       then [\<lparr>u_task_id = t, u_owner = ow, u_note = trim (draft_of D t ow)\<rparr>] else [])"
  using assms
proof (induction tms arbitrary: w)
  case Nil
  then show ?case by simp
next
  case (Cons tm tms)
  have a: "c_draftByTask (tm_cb tm) = D" "c_notesByTask (tm_cb tm) = N"
    "dirty D N (c_taskId (tm_cb tm)) (c_owner (tm_cb tm))"
    using Cons.prems(2) by simp_all
  note f = fire_writes[OF a, where t=t and ow=ow and w=w] fire_inflight[OF a, where w=w]
  have d: "distinct (map tm_key tms)" and nk: "tm_key tm \<notin> tm_key ` set tms"
    using Cons.prems(1) by simp_all
  have r: "\<forall>tm \<in> set tms. c_draftByTask (tm_cb tm) = D \<and> c_notesByTask (tm_cb tm) = N
           \<and> dirty D N (c_taskId (tm_cb tm)) (c_owner (tm_cb tm))"
    using Cons.prems(2) by simp
  note ih = Cons.IH[OF d r, where w="fire tm w"]
  show ?case
  proof (cases "c_taskId (tm_cb tm) = t \<and> c_owner (tm_cb tm) = ow")
    case True
    then have k: "tm_key tm = makeKey t ow" by (simp add: tm_key_def)
    have no: "\<not> (\<exists>tm' \<in> set tms. c_taskId (tm_cb tm') = t \<and> c_owner (tm_cb tm') = ow)"
    proof
      assume "\<exists>tm' \<in> set tms. c_taskId (tm_cb tm') = t \<and> c_owner (tm_cb tm') = ow"
      then obtain tm' where "tm' \<in> set tms" "tm_key tm' = makeKey t ow"
        by (auto simp: tm_key_def)
      with nk k show False by force
    qed
    show ?thesis using ih f(1) True no by simp
  next
    case False
    then have k: "tm_key tm \<noteq> makeKey t ow" by (auto simp: tm_key_def makeKey_eq_iff)
    have m: "(makeKey t ow \<in> autosaveInFlightRef (w_dash (fire tm w)))
               = (makeKey t ow \<in> autosaveInFlightRef (w_dash w))"
      using f(2) k by auto
    show ?thesis using ih f(1) False m by auto
  qed
qed

lemma advance_quiet:
  assumes "armed c D N w" "w_clock w = c" "g < delayMs"
  shows "advance g w = w\<lparr>w_clock := c + g\<rparr>"
proof -
  have 1: "filter (\<lambda>tm. tm_deadline tm \<le> c + g) (w_timeouts w) = []"
    using assms by (auto simp: armed_def filter_empty_conv)
  have 2: "filter (\<lambda>tm. \<not> tm_deadline tm \<le> c + g) (w_timeouts w) = w_timeouts w"
    using assms by (auto simp: armed_def filter_id_conv)
  show ?thesis using assms(2) 1 2 by (simp add: advance_def Let_def)
qed

lemma advance_all:
  assumes "armed c D N w" "w_clock w = c" "delayMs \<le> q"
  shows "advance q w = fold fire (w_timeouts w) (w\<lparr>w_clock := c + q, w_timeouts := []\<rparr>)"
proof -
  have 1: "filter (\<lambda>tm. \<not> tm_deadline tm \<le> c + q) (w_timeouts w) = []"
    using assms by (auto simp: armed_def filter_empty_conv)
  have 2: "filter (\<lambda>tm. tm_deadline tm \<le> c + q) (w_timeouts w) = w_timeouts w"
    using assms by (auto simp: armed_def filter_id_conv)
  show ?thesis using assms(2) 1 2 by (simp add: advance_def Let_def)
qed

text \<open>One debounce cycle: the effect runs and the window elapses with no other event.\<close>

lemma cycle_writes:
  assumes tr: "tracked w" and ch: "w_depsChanged w"
    and vis: "t \<in> t_id ` set (tasks (w_dash w))"
    and free: "makeKey t ow \<notin> autosaveInFlightRef (w_dash w)"
    and q: "delayMs \<le> q"
  shows "writes_for t ow (advance q (commit w)) = writes_for t ow w @
      (if dirty (draftByTask (w_dash w)) (notesByTask (w_dash w)) t ow
       then [\<lparr>u_task_id = t, u_owner = ow,
               u_note = trim (draft_of (draftByTask (w_dash w)) t ow)\<rparr>] else [])"
proof -
  define D where "D = draftByTask (w_dash w)"
  define N where "N = notesByTask (w_dash w)"
  define wc where "wc = commit w"
  note p = commit_post[OF tr ch, folded D_def N_def wc_def]
  have ck: "w_clock wc = w_clock w" by (simp add: wc_def commit_frame)
  have adv: "advance q wc = fold fire (w_timeouts wc) (wc\<lparr>w_clock := w_clock w + q, w_timeouts := []\<rparr>)"
    using advance_all[OF p(2) ck q] .
  have dk: "distinct (map tm_key (w_timeouts wc))" using p(1) by (rule tracked_distinct_keys)
  have al: "\<forall>tm \<in> set (w_timeouts wc). c_draftByTask (tm_cb tm) = D \<and> c_notesByTask (tm_cb tm) = N
           \<and> dirty D N (c_taskId (tm_cb tm)) (c_owner (tm_cb tm))"
    using p(2) by (simp add: armed_def)
  have h: "(\<exists>tm \<in> set (w_timeouts wc). c_taskId (tm_cb tm) = t \<and> c_owner (tm_cb tm) = ow)
             = dirty D N t ow"
  proof
    assume "\<exists>tm \<in> set (w_timeouts wc). c_taskId (tm_cb tm) = t \<and> c_owner (tm_cb tm) = ow"
    then show "dirty D N t ow" using al by auto
  next
    assume d: "dirty D N t ow"
    from vis obtain task where "task \<in> set (tasks (w_dash w))" "t_id task = t" by auto
    then have "has_timer t ow wc" using p(3)[of task ow] d by auto
    then show "\<exists>tm \<in> set (w_timeouts wc). c_taskId (tm_cb tm) = t \<and> c_owner (tm_cb tm) = ow"
      by (simp add: has_timer_def)
  qed
  have fr: "autosaveInFlightRef (w_dash (wc\<lparr>w_clock := w_clock w + q, w_timeouts := []\<rparr>))
              = autosaveInFlightRef (w_dash w)"
    by (simp add: wc_def commit_frame)
  have wr: "writes_for t ow (wc\<lparr>w_clock := w_clock w + q, w_timeouts := []\<rparr>) = writes_for t ow w"
    by (simp add: writes_for_def wc_def commit_frame)
  show ?thesis
    unfolding wc_def[symmetric] adv
      fold_fire_writes[OF dk al, where t=t and ow=ow and w="wc\<lparr>w_clock := w_clock w + q, w_timeouts := []\<rparr>"]
      h fr wr D_def N_def
    using free by simp
qed

lemma cycle_quiet:
  assumes tr: "tracked w" and ch: "w_depsChanged w" and g: "g < delayMs"
  shows "advance g (commit w) = (commit w)\<lparr>w_clock := w_clock w + g\<rparr>"
  using advance_quiet[OF commit_post(2)[OF tr ch] _ g] by (simp add: commit_frame)

lemma filter_distinct_key:
  "distinct (map f xs) \<Longrightarrow> x \<in> set xs \<Longrightarrow> filter (\<lambda>y. f y = f x) xs = [x]"
proof (induction xs)
  case Nil
  then show ?case by simp
next
  case (Cons a xs)
  show ?case
  proof (cases "a = x")
    case True
    have "f x \<notin> f ` set xs" using Cons.prems(1) True by simp
    then have "\<forall>y \<in> set xs. f y \<noteq> f x" by (metis imageI)
    then have "filter (\<lambda>y. f y = f x) xs = []"
      by (simp add: filter_empty_conv)
    then show ?thesis using True by simp
  next
    case False
    then have "x \<in> set xs" using Cons.prems(2) by simp
    moreover have "f a \<notin> f ` set xs" using Cons.prems(1) by simp
    ultimately have "f a \<noteq> f x" by (metis imageI)
    moreover note \<open>x \<in> set xs\<close>
    ultimately show ?thesis using Cons by simp
  qed
qed

lemma edit_draft_lookup:
  "draft_of (draftByTask (edit_draft t ow v st)) t ow = v"
  by (simp add: edit_draft_def draft_of_def)

lemma edit_draft_frame:
  "tasks (edit_draft t ow v st) = tasks st"
  "notesByTask (edit_draft t ow v st) = notesByTask st"
  "autosaveInFlightRef (edit_draft t ow v st) = autosaveInFlightRef st"
  by (simp_all add: edit_draft_def)

text \<open>A key stroke, its commit and a pause shorter than the delay issue nothing.\<close>

lemma round_quiet:
  fixes t :: string and ow :: owner and v :: string
  assumes tr: "tracked w" and g: "g < delayMs"
  defines "w' \<equiv> run [Edit t ow v, Commit, Advance g] w"
  shows "tracked w'" "w_writes w' = w_writes w" "tasks (w_dash w') = tasks (w_dash w)"
    "notesByTask (w_dash w') = notesByTask (w_dash w)"
    "autosaveInFlightRef (w_dash w') = autosaveInFlightRef (w_dash w)"
proof -
  define w1 where "w1 = step (Edit t ow v) w"
  have t1: "tracked w1" unfolding w1_def using tr by (rule step_tracked)
  have c1: "w_depsChanged w1" by (simp add: w1_def)
  have e: "w' = (commit w1)\<lparr>w_clock := w_clock w1 + g\<rparr>"
    using cycle_quiet[OF t1 c1 g] by (simp add: w'_def run_def w1_def)
  have t2: "tracked (commit w1)" using t1 by (rule commit_tracked)
  show "tracked w'" using t2 unfolding e by (simp add: tracked_def)
  show "w_writes w' = w_writes w" unfolding e by (simp add: commit_frame) (simp add: w1_def)
  show "tasks (w_dash w') = tasks (w_dash w)" unfolding e
    by (simp add: commit_frame) (simp add: w1_def edit_draft_frame)
  show "notesByTask (w_dash w') = notesByTask (w_dash w)" unfolding e
    by (simp add: commit_frame) (simp add: w1_def edit_draft_frame)
  show "autosaveInFlightRef (w_dash w') = autosaveInFlightRef (w_dash w)" unfolding e
    by (simp add: commit_frame) (simp add: w1_def edit_draft_frame)
qed

lemma typing_quiet:
  assumes "tracked w" and "\<forall>(v, g) \<in> set edits. g < delayMs"
  shows "tracked (run (typing t ow edits) w)
    \<and> w_writes (run (typing t ow edits) w) = w_writes w
    \<and> tasks (w_dash (run (typing t ow edits) w)) = tasks (w_dash w)
    \<and> notesByTask (w_dash (run (typing t ow edits) w)) = notesByTask (w_dash w)
    \<and> autosaveInFlightRef (w_dash (run (typing t ow edits) w)) = autosaveInFlightRef (w_dash w)"
  using assms
proof (induction edits arbitrary: w)
  case Nil
  then show ?case by (simp add: typing_def run_def)
next
  case (Cons e edits)
  obtain v g where e: "e = (v, g)" by (cases e)
  have g: "g < delayMs" using Cons.prems(2) e by simp
  define w1 where "w1 = run [Edit t ow v, Commit, Advance g] w"
  note r = round_quiet[OF Cons.prems(1) g, where t=t and ow=ow and v=v, folded w1_def]
  have rest: "\<forall>(v, g) \<in> set edits. g < delayMs" using Cons.prems(2) by simp
  have s: "run (typing t ow (e # edits)) w = run (typing t ow edits) w1"
    by (simp add: typing_def e w1_def run_def)
  show ?case unfolding s using Cons.IH[OF r(1) rest] r(2-) by simp
qed

section \<open>Debounce coalescing\<close>

lemmas model_defs =
  run_def ready1_def world0_def dashboard0_def task1_def row1_def loadTasks_finish_def
  loadNotesForTasks_begin_def loadNotesForTasks_finish_def commit_def autosave_effect_def
  autosave_cleanup_def arm_timer_def ALL_OWNERS_def draft_of_def saved_of_def init_defaults_def
  default_notes_def default_drafts_def default_entry_def entry_of_row_def new_Set_def set_add_def
  edit_draft_def makeKey_def owner_str_def setTimeout_def clearTimeout_def delayMs_def advance_def
  fire_def issue_def timerCallback_def raw_of_def saveNote_begin_def saveNote_finish_def trim_def
  is_ws_def
  Let_def

text \<open>
  Claim C1, as amended. Take any state the component can reach in which the task is in
  the task list and no save of the key is in flight. While values are typed into the
  editor of the key, each key stroke committed and followed by a pause shorter than the
  delay of 1500 ms, no upsert at all is issued. After the last key stroke is committed,
  a final draft that differs from the cached saved note has exactly one pending timer for
  its key, due 1500 ms after that key stroke. Once a pause of at least 1500 ms has passed
  with no other event, the upserts issued for the key are those issued before and exactly
  one more, carrying the trimmed final draft; or no more at all when the final draft
  equals the cached saved note.
\<close>

theorem debounce_coalesces:
  assumes vis: "taskId \<in> t_id ` set (tasks (w_dash (run evs world0)))"
    and free: "makeKey taskId ow \<notin> autosaveInFlightRef (w_dash (run evs world0))"
    and rapid: "\<forall>(v, g) \<in> set edits. g < delayMs"
    and quiet: "delayMs \<le> q"
  shows
    "w_writes (run (evs @ typing taskId ow edits @ [Edit taskId ow v, Commit]) world0)
        = w_writes (run evs world0)
     \<and> (v \<noteq> saved_of (notesByTask (w_dash (run evs world0))) taskId ow \<longrightarrow>
          map tm_deadline (filter (\<lambda>tm. tm_key tm = makeKey taskId ow)
            (w_timeouts (run (evs @ typing taskId ow edits @ [Edit taskId ow v, Commit]) world0)))
          = [w_clock (run (evs @ typing taskId ow edits @ [Edit taskId ow v, Commit]) world0) + delayMs])
     \<and> writes_for taskId ow
          (run (evs @ typing taskId ow edits @ [Edit taskId ow v, Commit, Advance q]) world0)
        = writes_for taskId ow (run evs world0) @
          (if v \<noteq> saved_of (notesByTask (w_dash (run evs world0))) taskId ow
           then [\<lparr>u_task_id = taskId, u_owner = ow, u_note = trim v\<rparr>] else [])"
proof -
  define w where "w = run evs world0"
  define wt where "wt = run (typing taskId ow edits) w"
  define w1 where "w1 = step (Edit taskId ow v) wt"
  define wl where "wl = commit w1"
  have tw: "tracked w" unfolding w_def by (rule run_tracked[OF tracked_world0])
  note ty = typing_quiet[OF tw rapid, of taskId ow, folded wt_def]
  have tt: "tracked wt" using ty by simp
  have t1: "tracked w1" unfolding w1_def using tt by (rule step_tracked)
  have c1: "w_depsChanged w1" by (simp add: w1_def)
  have f1: "w_writes w1 = w_writes w" "tasks (w_dash w1) = tasks (w_dash w)"
    "notesByTask (w_dash w1) = notesByTask (w_dash w)"
    "autosaveInFlightRef (w_dash w1) = autosaveInFlightRef (w_dash w)"
    "draft_of (draftByTask (w_dash w1)) taskId ow = v"
    using ty by (simp_all add: w1_def edit_draft_frame edit_draft_lookup)
  have d1: "dirty (draftByTask (w_dash w1)) (notesByTask (w_dash w1)) taskId ow
              = (v \<noteq> saved_of (notesByTask (w_dash w)) taskId ow)"
    by (simp add: dirty_def f1)
  have r1: "run (evs @ typing taskId ow edits @ [Edit taskId ow v, Commit]) world0 = wl"
    by (simp add: run_append w_def[symmetric] wt_def[symmetric]) (simp add: run_def wl_def w1_def)
  have r2: "run (evs @ typing taskId ow edits @ [Edit taskId ow v, Commit, Advance q]) world0
              = advance q (commit w1)"
    by (simp add: run_append w_def[symmetric] wt_def[symmetric]) (simp add: run_def w1_def)
  have A: "w_writes wl = w_writes w" by (simp add: wl_def commit_frame f1)
  have B: "map tm_deadline (filter (\<lambda>tm. tm_key tm = makeKey taskId ow) (w_timeouts wl))
            = [w_clock wl + delayMs]"
    if ne: "v \<noteq> saved_of (notesByTask (w_dash w)) taskId ow"
  proof -
    note p = commit_post[OF t1 c1, folded wl_def]
    from vis obtain task where tk: "task \<in> set (tasks (w_dash w1))" "t_id task = taskId"
      using f1(2) by (auto simp: w_def)
    have "has_timer taskId ow wl" using p(3)[OF tk(1), of ow] tk(2) d1 ne by simp
    then obtain tm where tm: "tm \<in> set (w_timeouts wl)" "tm_key tm = makeKey taskId ow"
      by (auto simp: has_timer_key)
    have dl: "tm_deadline tm = w_clock wl + delayMs"
      using p(2) tm(1) by (simp add: armed_def wl_def commit_frame)
    have "filter (\<lambda>y. tm_key y = tm_key tm) (w_timeouts wl) = [tm]"
      using tracked_distinct_keys[OF p(1)] tm(1) by (rule filter_distinct_key)
    then show ?thesis using tm(2) dl by simp
  qed
  have fr: "makeKey taskId ow \<notin> autosaveInFlightRef (w_dash w1)"
    using free by (simp add: f1 w_def)
  have v1: "taskId \<in> t_id ` set (tasks (w_dash w1))" using vis by (simp add: f1 w_def)
  have C: "writes_for taskId ow (advance q (commit w1)) = writes_for taskId ow w @
      (if v \<noteq> saved_of (notesByTask (w_dash w)) taskId ow
       then [\<lparr>u_task_id = taskId, u_owner = ow, u_note = trim v\<rparr>] else [])"
    using cycle_writes[OF t1 c1 v1 fr quiet] d1 f1
    by (simp add: writes_for_def)
  show ?thesis unfolding r1 r2 w_def[symmetric] using A B C by simp
qed

lemma ready1_tasks: "tasks (w_dash (run ready1 world0)) = [task1]"
  by (simp add: model_defs)

lemma ready1_free: "autosaveInFlightRef (w_dash (run ready1 world0)) = {}"
  by (simp add: model_defs)

lemma ready1_writes: "w_writes (run ready1 world0) = []"
  by (simp add: model_defs)

lemma ready1_saved: "saved_of (notesByTask (w_dash (run ready1 world0))) ''t1'' OWNER_B = []"
  by (simp add: model_defs)

lemma trim_en_route: "trim ''En route '' = ''En route''"
  by (simp add: trim_def is_ws_def)

theorem debounce_coalesces_witness:
  "''t1'' \<in> t_id ` set (tasks (w_dash (run ready1 world0)))
   \<and> makeKey ''t1'' OWNER_B \<notin> autosaveInFlightRef (w_dash (run ready1 world0))
   \<and> (200::nat) < delayMs \<and> delayMs \<le> 1500
   \<and> writes_for ''t1'' OWNER_B
        (run (ready1 @ typing ''t1'' OWNER_B [(''En'', 200)]
                @ [Edit ''t1'' OWNER_B ''En route '', Commit, Advance 1500]) world0)
      = [\<lparr>u_task_id = ''t1'', u_owner = OWNER_B, u_note = ''En route''\<rparr>]"
proof -
  have vis: "''t1'' \<in> t_id ` set (tasks (w_dash (run ready1 world0)))"
    by (simp add: ready1_tasks task1_def)
  have free: "makeKey ''t1'' OWNER_B \<notin> autosaveInFlightRef (w_dash (run ready1 world0))"
    by (simp add: ready1_free)
  have rapid: "\<forall>(v, g) \<in> set [(''En'', 200::nat)]. g < delayMs" by (simp add: delayMs_def)
  have quiet: "delayMs \<le> 1500" by (simp add: delayMs_def)
  have w0: "writes_for ''t1'' OWNER_B (run ready1 world0) = []"
    by (simp add: writes_for_def ready1_writes)
  show ?thesis
    using debounce_coalesces [OF vis free rapid quiet, of "''En route ''"] vis free quiet
    by (simp add: w0 ready1_saved trim_en_route delayMs_def)
qed

text \<open>
  The one upsert issued after two rapid key strokes does not carry the final draft when
  that draft ends in a blank: it carries the trimmed text.
\<close>

theorem final_draft_is_not_what_is_written:
  "w_writes w_typed = [\<lparr>u_task_id = ''t1'', u_owner = OWNER_B, u_note = ''En route''\<rparr>]
   \<and> draft_of (draftByTask (w_dash w_typed)) ''t1'' OWNER_B = ''En route ''
   \<and> w_writes w_typed \<noteq>
       [\<lparr>u_task_id = ''t1'', u_owner = OWNER_B,
         u_note = draft_of (draftByTask (w_dash w_typed)) ''t1'' OWNER_B\<rparr>]"
  by (simp add: w_typed_def model_defs)

section \<open>One save in flight per key\<close>

lemma distinct_map_coarser:
  assumes "distinct (map g xs)" and "\<And>x y. f x = f y \<Longrightarrow> g x = g y"
  shows "distinct (map f xs)"
proof -
  have "inj_on g (set xs)" and d: "distinct xs"
    using assms(1) by (simp_all add: distinct_map)
  then have "inj_on f (set xs)"
    by (meson assms(2) inj_on_def)
  with d show ?thesis by (simp add: distinct_map)
qed

lemma pending_excl: "excl (run evs world0)"
  by (rule run_excl[OF excl_world0])

lemma saveNote_begin_busy:
  "makeKey t ow \<in> autosaveInFlightRef st \<Longrightarrow>
   saveNote_begin D t ow ov st = (None, st\<lparr>errorMsg := ''''\<rparr>)"
  by (simp add: saveNote_begin_def Let_def)

lemma timerCallback_busy:
  "makeKey (c_taskId cl) (c_owner cl) \<in> autosaveInFlightRef st \<Longrightarrow>
   fst (timerCallback cl st) = None"
  by (simp add: timerCallback_def Let_def saveNote_begin_busy)

text \<open>
  Claim C2. In every state the component can reach, no two pending upserts have the same
  task id and owner, and the key of every pending upsert is marked in flight. A save
  requested for a key that is marked in flight issues nothing, whether it comes from the
  button or from a timer, and only clears the error banner. So while an upsert of a key is
  pending, a click on the save button of that key and the firing of a timer of that key
  leave the pending upserts and the issued upserts as they are.
\<close>

theorem one_save_in_flight_per_key:
  "distinct (map (\<lambda>r. (u_task_id r, u_owner r)) (w_pending (run evs world0)))
   \<and> (\<forall>r \<in> set (w_pending (run evs world0)).
         makeKey (u_task_id r) (u_owner r) \<in> autosaveInFlightRef (w_dash (run evs world0)))
   \<and> (makeKey taskId ow \<in> autosaveInFlightRef st \<longrightarrow>
         saveNote_begin D taskId ow ov st = (None, st\<lparr>errorMsg := ''''\<rparr>)
         \<and> (c_taskId cl = taskId \<and> c_owner cl = ow \<longrightarrow> fst (timerCallback cl st) = None))
   \<and> ((\<exists>r \<in> set (w_pending (run evs world0)). u_task_id r = taskId \<and> u_owner r = ow) \<longrightarrow>
         w_pending (run (evs @ [ClickSave taskId ow]) world0) = w_pending (run evs world0)
         \<and> w_writes (run (evs @ [ClickSave taskId ow]) world0) = w_writes (run evs world0)
         \<and> (c_taskId (tm_cb tm) = taskId \<and> c_owner (tm_cb tm) = ow \<longrightarrow>
              w_pending (fire tm (run evs world0)) = w_pending (run evs world0)
              \<and> w_writes (fire tm (run evs world0)) = w_writes (run evs world0)))"
proof -
  define w where "w = run evs world0"
  have e: "distinct (map req_key (w_pending w))"
    "\<forall>r \<in> set (w_pending w). req_key r \<in> autosaveInFlightRef (w_dash w)"
    using pending_excl[of evs] unfolding w_def excl_def by auto
  have A: "distinct (map (\<lambda>r. (u_task_id r, u_owner r)) (w_pending w))"
    using e(1) by (rule distinct_map_coarser) (simp add: req_key_def)
  have B: "\<forall>r \<in> set (w_pending w). makeKey (u_task_id r) (u_owner r) \<in> autosaveInFlightRef (w_dash w)"
    using e(2) by (simp add: req_key_def)
  have C: "makeKey taskId ow \<in> autosaveInFlightRef st \<longrightarrow>
         saveNote_begin D taskId ow ov st = (None, st\<lparr>errorMsg := ''''\<rparr>)
         \<and> (c_taskId cl = taskId \<and> c_owner cl = ow \<longrightarrow> fst (timerCallback cl st) = None)"
    by (simp add: saveNote_begin_busy timerCallback_busy)
  have D: "w_pending (run (evs @ [ClickSave taskId ow]) world0) = w_pending w
         \<and> w_writes (run (evs @ [ClickSave taskId ow]) world0) = w_writes w
         \<and> (c_taskId (tm_cb tm) = taskId \<and> c_owner (tm_cb tm) = ow \<longrightarrow>
              w_pending (fire tm w) = w_pending w \<and> w_writes (fire tm w) = w_writes w)"
    if "\<exists>r \<in> set (w_pending w). u_task_id r = taskId \<and> u_owner r = ow"
  proof -
    from that B have busy: "makeKey taskId ow \<in> autosaveInFlightRef (w_dash w)" by auto
    have 1: "run (evs @ [ClickSave taskId ow]) world0
              = issue (saveNote_begin (w_renderedDrafts w) taskId ow None (w_dash w)) w"
      by (simp add: run_append w_def[symmetric]) (simp add: run_def)
    have 2: "c_taskId (tm_cb tm) = taskId \<and> c_owner (tm_cb tm) = ow \<Longrightarrow>
              fst (timerCallback (tm_cb tm) (w_dash w)) = None"
      using busy by (simp add: timerCallback_busy)
    show ?thesis
      unfolding 1 using 2 by (simp add: saveNote_begin_busy[OF busy] issue_def fire_def)
  qed
  show ?thesis unfolding w_def[symmetric]
    apply (intro conjI)
       apply (rule A)
      apply (rule B)
     apply (rule C)
    apply (rule impI)
    apply (erule D)
    done
qed

lemma clicked1_pending:
  "w_pending (run clicked1 world0) = [\<lparr>u_task_id = ''t1'', u_owner = OWNER_B, u_note = ''x''\<rparr>]"
  by (simp add: clicked1_def model_defs)

theorem one_save_in_flight_per_key_witness:
  "(\<exists>r \<in> set (w_pending (run clicked1 world0)). u_task_id r = ''t1'' \<and> u_owner r = OWNER_B)
   \<and> makeKey ''t1'' OWNER_B \<in> autosaveInFlightRef (w_dash (run clicked1 world0))
   \<and> w_pending (run (clicked1 @ [ClickSave ''t1'' OWNER_B]) world0)
        = [\<lparr>u_task_id = ''t1'', u_owner = OWNER_B, u_note = ''x''\<rparr>]
   \<and> w_writes (run (clicked1 @ [ClickSave ''t1'' OWNER_B]) world0) = w_writes (run clicked1 world0)"
  using one_save_in_flight_per_key [of clicked1 "''t1''" OWNER_B]
  by (simp add: clicked1_pending)

section \<open>What a firing timer reads\<close>

text \<open>
  Claim C3 says that a firing timer reads the current draft and saved note of its key and
  writes only if they differ. The callback reads the caches of the render that armed it
  instead. In the state \<open>w_stale\<close> the timer of owner B's draft \<open>x\<close> is pending, a
  rehydration has since made draft and saved note of the key equal, and no upsert has been
  issued; when the timer falls due before the commit of the rehydrated state has cleared
  it, it upserts the stale draft \<open>x\<close>.
\<close>

theorem stale_timer_overwrites_rehydrated_note:
  "draft_of (draftByTask (w_dash w_stale)) ''t1'' OWNER_B = ''En route''
   \<and> saved_of (notesByTask (w_dash w_stale)) ''t1'' OWNER_B = ''En route''
   \<and> w_writes w_stale = []
   \<and> w_writes (step (Advance 500) w_stale)
        = [\<lparr>u_task_id = ''t1'', u_owner = OWNER_B, u_note = ''x''\<rparr>]"
  by (simp add: w_stale_def model_defs)

section \<open>A failed save\<close>













section \<open>A successful save\<close>

lemma rows_for_map_same:
  "rows_for t ow (map (\<lambda>s. if s_task_id s = t \<and> s_owner s = ow
                     then s\<lparr>s_note := nt, s_updated_at := now\<rparr> else s) rows)
   = map (\<lambda>s. s\<lparr>s_note := nt, s_updated_at := now\<rparr>) (rows_for t ow rows)"
  by (induction rows) (simp_all add: rows_for_def)

lemma rows_for_map_other:
  "t' \<noteq> t \<or> ow' \<noteq> ow \<Longrightarrow>
   rows_for t' ow' (map (\<lambda>s. if s_task_id s = t \<and> s_owner s = ow
                     then s\<lparr>s_note := nt, s_updated_at := now\<rparr> else s) rows)
   = rows_for t' ow' rows"
  by (induction rows) (auto simp: rows_for_def)

lemma store_upsert_same:
  assumes "length (rows_for t ow rows) \<le> 1"
  shows "map s_note (rows_for t ow
           (store_upsert \<lparr>u_task_id = t, u_owner = ow, u_note = nt\<rparr> fresh now rows)) = [nt]"
proof (cases "list_ex (\<lambda>s. s_task_id s = t \<and> s_owner s = ow) rows")
  case False
  then have "rows_for t ow rows = []"
    by (simp add: rows_for_def list_ex_iff filter_empty_conv)
  then show ?thesis using False by (simp add: store_upsert_def) (simp add: rows_for_def)
next
  case True
  then have "rows_for t ow rows \<noteq> []"
    by (simp add: rows_for_def list_ex_iff filter_empty_conv)
  with assms obtain s where s: "rows_for t ow rows = [s]"
    by (cases "rows_for t ow rows") auto
  show ?thesis using True s by (simp add: store_upsert_def rows_for_map_same)
qed

lemma store_upsert_other:
  assumes "(t', ow') \<noteq> (t, ow)"
  shows "rows_for t' ow' (store_upsert \<lparr>u_task_id = t, u_owner = ow, u_note = nt\<rparr> fresh now rows)
           = rows_for t' ow' rows"
proof (cases "list_ex (\<lambda>s. s_task_id s = t \<and> s_owner s = ow) rows")
  case True
  have "t' \<noteq> t \<or> ow' \<noteq> ow" using assms by simp
  then show ?thesis using True by (simp add: store_upsert_def rows_for_map_other)
next
  case False
  then show ?thesis using assms by (simp add: store_upsert_def) (auto simp: rows_for_def)
qed

lemma saveNote_begin_free:
  assumes "makeKey t ow \<notin> autosaveInFlightRef st"
  shows "saveNote_begin D t ow ov st =
     (Some \<lparr>u_task_id = t, u_owner = ow,
            u_note = trim (raw_of D t ow ov)\<rparr>,
      st\<lparr>errorMsg := '''', autosaveInFlightRef := insert (makeKey t ow) (autosaveInFlightRef st),
          savingKeys := (savingKeys st)(makeKey t ow \<mapsto> True)\<rparr>)"
  using assms by (simp add: saveNote_begin_def Let_def)

lemma saveNote_finish_ok:
  "entry_of (notesByTask (saveNote_finish t ow nt None now st)) t' ow' =
     (if t' = t \<and> ow' = ow then Some \<lparr>e_note = nt, e_updated_at = Some now, e_id = None\<rparr>
      else entry_of (notesByTask st) t' ow')"
  "draftByTask (saveNote_finish t ow nt None now st) = draftByTask st"
  "savingKeys (saveNote_finish t ow nt None now st) (makeKey t ow) = Some False"
  "autosaveInFlightRef (saveNote_finish t ow nt None now st) = autosaveInFlightRef st - {makeKey t ow}"
  "saved_of (notesByTask (saveNote_finish t ow nt None now st)) t ow = nt"
  by (auto simp: saveNote_finish_def Let_def entry_of_def saved_of_def split: option.splits)

text \<open>
  Claim C5. When no save of the key is in flight, \<open>saveNote\<close> issues one upsert for
  the task id and owner carrying the trimmed text. On its success the note cache entry of
  exactly that pair becomes the saved text with the timestamp of that moment, without any
  fetch; every other entry and the draft cache stay as they were; the saving flag of the
  key is false and the key is no longer in flight. Applied to a store that holds at most
  one row of the pair, the upsert leaves exactly one row of the pair, with the saved text,
  and the rows of every other pair untouched. A text that trims to the empty string is
  saved like any other and leaves the empty note in cache and store.
\<close>

theorem successful_save_updates_cache:
  assumes free: "makeKey taskId ow \<notin> autosaveInFlightRef st"
    and uniq: "length (rows_for taskId ow rows) \<le> 1"
  shows
    "fst (saveNote_begin D taskId ow ov st)
       = Some \<lparr>u_task_id = taskId, u_owner = ow, u_note = trim (raw_of D taskId ow ov)\<rparr>
     \<and> entry_of (notesByTask (saveNote_finish taskId ow (trim (raw_of D taskId ow ov)) None now
                  (snd (saveNote_begin D taskId ow ov st)))) taskId ow
         = Some \<lparr>e_note = trim (raw_of D taskId ow ov), e_updated_at = Some now, e_id = None\<rparr>
     \<and> (\<forall>t' ow'. (t', ow') \<noteq> (taskId, ow) \<longrightarrow>
           entry_of (notesByTask (saveNote_finish taskId ow (trim (raw_of D taskId ow ov)) None now
                  (snd (saveNote_begin D taskId ow ov st)))) t' ow'
             = entry_of (notesByTask st) t' ow')
     \<and> draftByTask (saveNote_finish taskId ow (trim (raw_of D taskId ow ov)) None now
           (snd (saveNote_begin D taskId ow ov st))) = draftByTask st
     \<and> savingKeys (saveNote_finish taskId ow (trim (raw_of D taskId ow ov)) None now
           (snd (saveNote_begin D taskId ow ov st))) (makeKey taskId ow) = Some False
     \<and> makeKey taskId ow \<notin> autosaveInFlightRef
           (saveNote_finish taskId ow (trim (raw_of D taskId ow ov)) None now
             (snd (saveNote_begin D taskId ow ov st)))
     \<and> map s_note (rows_for taskId ow
           (store_upsert \<lparr>u_task_id = taskId, u_owner = ow, u_note = trim (raw_of D taskId ow ov)\<rparr>
              fresh now' rows)) = [trim (raw_of D taskId ow ov)]
     \<and> (\<forall>t' ow'. (t', ow') \<noteq> (taskId, ow) \<longrightarrow>
           rows_for t' ow'
             (store_upsert \<lparr>u_task_id = taskId, u_owner = ow, u_note = trim (raw_of D taskId ow ov)\<rparr>
                fresh now' rows)
           = rows_for t' ow' rows)
     \<and> (trim (raw_of D taskId ow ov) = [] \<longrightarrow>
           saved_of (notesByTask (saveNote_finish taskId ow (trim (raw_of D taskId ow ov)) None now
                  (snd (saveNote_begin D taskId ow ov st)))) taskId ow = [])"
  using store_upsert_same[OF uniq] store_upsert_other
  by (simp add: saveNote_begin_free[OF free] saveNote_finish_ok)

theorem successful_save_updates_cache_witness:
  "makeKey ''t1'' OWNER_A \<notin> autosaveInFlightRef drafted1
   \<and> length (rows_for ''t1'' OWNER_A []) \<le> 1
   \<and> length (rows_for ''t1'' OWNER_A [old_row]) \<le> 1
   \<and> fst (saveNote_begin (draftByTask drafted1) ''t1'' OWNER_A None drafted1)
        = Some \<lparr>u_task_id = ''t1'', u_owner = OWNER_A, u_note = ''a''\<rparr>
   \<and> entry_of (notesByTask (saveNote_finish ''t1'' OWNER_A ''a'' None ''2024-01-01T00:00:01.000Z''
        (snd (saveNote_begin (draftByTask drafted1) ''t1'' OWNER_A None drafted1)))) ''t1'' OWNER_A
        = Some \<lparr>e_note = ''a'', e_updated_at = Some ''2024-01-01T00:00:01.000Z'', e_id = None\<rparr>
   \<and> map s_note (rows_for ''t1'' OWNER_A
        (store_upsert \<lparr>u_task_id = ''t1'', u_owner = OWNER_A, u_note = ''a''\<rparr>
           ''n1'' ''2024-01-01T00:00:01.000Z'' [])) = [''a'']
   \<and> trim (raw_of (draftByTask drafted1) ''t1'' OWNER_A (Some ''  '')) = []
   \<and> saved_of (notesByTask (saveNote_finish ''t1'' OWNER_A [] None ''2024-01-01T00:00:01.000Z''
        (snd (saveNote_begin (draftByTask drafted1) ''t1'' OWNER_A (Some ''  '') drafted1))))
        ''t1'' OWNER_A = []
   \<and> map s_note (rows_for ''t1'' OWNER_A
        (store_upsert \<lparr>u_task_id = ''t1'', u_owner = OWNER_A, u_note = []\<rparr>
           ''n1'' ''2024-01-01T00:00:01.000Z'' [old_row])) = ['''']"
proof -
  have free: "makeKey ''t1'' OWNER_A \<notin> autosaveInFlightRef drafted1"
    by (simp add: drafted1_def edit_draft_def dashboard0_def)
  have u0: "length (rows_for ''t1'' OWNER_A []) \<le> 1" by (simp add: rows_for_def)
  have u1: "length (rows_for ''t1'' OWNER_A [old_row]) \<le> 1" by (simp add: rows_for_def)
  have r0: "trim (raw_of (draftByTask drafted1) ''t1'' OWNER_A None) = ''a''"
    by (simp add: raw_of_def drafted1_def edit_draft_def draft_of_def trim_def is_ws_def)
  have r1: "trim (raw_of (draftByTask drafted1) ''t1'' OWNER_A (Some ''  '')) = []"
    by (simp add: raw_of_def trim_def is_ws_def)
  show ?thesis
    using successful_save_updates_cache [OF free u0, where D = "draftByTask drafted1" and ov = None
        and now = "''2024-01-01T00:00:01.000Z''" and fresh = "''n1''"
        and now' = "''2024-01-01T00:00:01.000Z''"]
      successful_save_updates_cache [OF free u1, where D = "draftByTask drafted1"
        and ov = "Some ''  ''" and now = "''2024-01-01T00:00:01.000Z''" and fresh = "''n1''"
        and now' = "''2024-01-01T00:00:01.000Z''"]
      free u0 u1
    by (simp add: r0 r1)
qed

section \<open>Saving the same draft twice\<close>

lemma saveNote_ok_eq:
  assumes "makeKey t ow \<notin> autosaveInFlightRef st"
  shows "saved_of (notesByTask (saveNote_ok t ow now st)) t ow = trim (draft_of (draftByTask st) t ow)"
    and "draftByTask (saveNote_ok t ow now st) = draftByTask st"
    and "makeKey t ow \<notin> autosaveInFlightRef (saveNote_ok t ow now st)"
  by (simp_all add: saveNote_ok_def saveNote_finish_ok saveNote_begin_free[OF assms] saveNote_begin_frame)

text \<open>
  Claim C7, as amended. After a successful save of the draft of a key, the cached saved
  note of the key is the trimmed draft and the draft is unchanged; so when the draft has no
  white space at its ends, draft and cached saved note agree and the autosave effect arms
  no timer for the key. Saving the same draft again from the button issues one more upsert
  for the same task id and owner with the same text; applied after the first upsert to a
  store that held at most one row of the pair, it leaves exactly one row of the pair, with
  that text.
\<close>

theorem second_save_rewrites_same_row:
  assumes free: "makeKey taskId ow \<notin> autosaveInFlightRef st"
    and uniq: "length (rows_for taskId ow rows) \<le> 1"
  shows
    "saved_of (notesByTask (saveNote_ok taskId ow now1 st)) taskId ow
        = trim (draft_of (draftByTask st) taskId ow)
     \<and> draftByTask (saveNote_ok taskId ow now1 st) = draftByTask st
     \<and> (trim (draft_of (draftByTask st) taskId ow) = draft_of (draftByTask st) taskId ow \<longrightarrow>
          \<not> dirty (draftByTask (saveNote_ok taskId ow now1 st))
                (notesByTask (saveNote_ok taskId ow now1 st)) taskId ow
          \<and> arm_timer (draftByTask (saveNote_ok taskId ow now1 st))
                (notesByTask (saveNote_ok taskId ow now1 st)) taskId ow w = w)
     \<and> fst (saveNote_begin (draftByTask (saveNote_ok taskId ow now1 st)) taskId ow None
              (saveNote_ok taskId ow now1 st))
        = Some \<lparr>u_task_id = taskId, u_owner = ow,
                 u_note = trim (draft_of (draftByTask st) taskId ow)\<rparr>
     \<and> map s_note (rows_for taskId ow
          (store_upsert \<lparr>u_task_id = taskId, u_owner = ow,
                         u_note = trim (draft_of (draftByTask st) taskId ow)\<rparr> fresh2 now2
            (store_upsert \<lparr>u_task_id = taskId, u_owner = ow,
                           u_note = trim (draft_of (draftByTask st) taskId ow)\<rparr> fresh1 now1 rows)))
        = [trim (draft_of (draftByTask st) taskId ow)]"
proof -
  define d where "d = draft_of (draftByTask st) taskId ow"
  define st1 where "st1 = saveNote_ok taskId ow now1 st"
  define req where "req = \<lparr>u_task_id = taskId, u_owner = ow, u_note = trim d\<rparr>"
  note s = saveNote_ok_eq[OF free, of now1, folded st1_def d_def]
  have A: "trim d = d \<Longrightarrow> \<not> dirty (draftByTask st1) (notesByTask st1) taskId ow"
    using s(1,2) by (simp add: dirty_def d_def)
  have B: "trim d = d \<Longrightarrow> arm_timer (draftByTask st1) (notesByTask st1) taskId ow w = w"
    using A by (simp add: arm_timer_clean_eq)
  have C: "fst (saveNote_begin (draftByTask st1) taskId ow None st1) = Some req"
    using s(2) by (simp add: saveNote_begin_free[OF s(3)] raw_of_def req_def d_def)
  have u1: "length (rows_for taskId ow (store_upsert req fresh1 now1 rows)) \<le> 1"
  proof -
    have "map s_note (rows_for taskId ow (store_upsert req fresh1 now1 rows)) = [trim d]"
      unfolding req_def by (rule store_upsert_same[OF uniq])
    then have "length (map s_note (rows_for taskId ow (store_upsert req fresh1 now1 rows))) = 1"
      by simp
    then show ?thesis by simp
  qed
  have D: "map s_note (rows_for taskId ow
             (store_upsert req fresh2 now2 (store_upsert req fresh1 now1 rows))) = [trim d]"
    using store_upsert_same[OF u1, of "trim d" fresh2 now2] by (simp add: req_def)
  show ?thesis
    unfolding d_def[symmetric] st1_def[symmetric] req_def[symmetric]
    using s(1,2) A B C D by simp
qed

lemma drafted1_draft: "draft_of (draftByTask drafted1) ''t1'' OWNER_A = ''a''"
  by (simp add: drafted1_def edit_draft_def draft_of_def)

lemma trim_a: "trim ''a'' = ''a''"
  by (simp add: trim_def is_ws_def)

lemma saved_once_eq: "saved_once = saveNote_ok ''t1'' OWNER_A ''2024-01-01T00:00:01.000Z'' drafted1"
  by (simp add: saved_once_def saveNote_ok_def drafted1_draft trim_a)

theorem second_save_rewrites_same_row_witness:
  "makeKey ''t1'' OWNER_A \<notin> autosaveInFlightRef drafted1
   \<and> length (rows_for ''t1'' OWNER_A []) \<le> 1
   \<and> trim (draft_of (draftByTask drafted1) ''t1'' OWNER_A) = draft_of (draftByTask drafted1) ''t1'' OWNER_A
   \<and> saved_of (notesByTask saved_once) ''t1'' OWNER_A = ''a''
   \<and> \<not> dirty (draftByTask saved_once) (notesByTask saved_once) ''t1'' OWNER_A
   \<and> fst (saveNote_begin (draftByTask saved_once) ''t1'' OWNER_A None saved_once)
        = Some \<lparr>u_task_id = ''t1'', u_owner = OWNER_A, u_note = ''a''\<rparr>
   \<and> map s_note (rows_for ''t1'' OWNER_A
        (store_upsert \<lparr>u_task_id = ''t1'', u_owner = OWNER_A, u_note = ''a''\<rparr>
           ''n2'' ''2024-01-01T00:00:02.000Z''
          (store_upsert \<lparr>u_task_id = ''t1'', u_owner = OWNER_A, u_note = ''a''\<rparr>
             ''n1'' ''2024-01-01T00:00:01.000Z'' []))) = [''a'']"
proof -
  have free: "makeKey ''t1'' OWNER_A \<notin> autosaveInFlightRef drafted1"
    by (simp add: drafted1_def edit_draft_def dashboard0_def)
  have u0: "length (rows_for ''t1'' OWNER_A []) \<le> 1" by (simp add: rows_for_def)
  have t: "trim (draft_of (draftByTask drafted1) ''t1'' OWNER_A)
             = draft_of (draftByTask drafted1) ''t1'' OWNER_A"
    by (simp add: drafted1_draft trim_a)
  note th = second_save_rewrites_same_row [OF free u0, where ?now1.0 = "''2024-01-01T00:00:01.000Z''"
        and w = world0 and ?fresh1.0 = "''n1''" and ?fresh2.0 = "''n2''"
        and ?now2.0 = "''2024-01-01T00:00:02.000Z''",
        unfolded saved_once_eq[symmetric] drafted1_draft trim_a]
  show ?thesis
    using th free u0 t by blast
qed

text \<open>
  The second save is not a no-op: with draft and cached saved note equal after the first
  save, the second call still issues an upsert, and its success replaces the cache entry
  by one with a new timestamp.
\<close>

theorem second_save_is_not_a_noop:
  "draft_of (draftByTask saved_once) ''t1'' OWNER_A = saved_of (notesByTask saved_once) ''t1'' OWNER_A
   \<and> fst (saveNote_begin (draftByTask saved_once) ''t1'' OWNER_A None saved_once)
        = Some \<lparr>u_task_id = ''t1'', u_owner = OWNER_A, u_note = ''a''\<rparr>
   \<and> entry_of (notesByTask (saveNote_finish ''t1'' OWNER_A ''a'' None ''2024-01-01T00:00:02.000Z''
         (snd (saveNote_begin (draftByTask saved_once) ''t1'' OWNER_A None saved_once))))
           ''t1'' OWNER_A
       \<noteq> entry_of (notesByTask saved_once) ''t1'' OWNER_A"
  by (simp add: saved_once_def drafted1_def dashboard0_def edit_draft_def saveNote_begin_def
      saveNote_finish_def raw_of_def draft_of_def saved_of_def entry_of_def trim_def is_ws_def
      makeKey_def owner_str_def Let_def)

end
